theory Spec2Isabelle
  imports Main "HOL-Library.Word" "HOL-Library.Multiset"
begin

unbundle bit_operations_syntax

section \<open>Data model of hw/vhost.c\<close>

type_synonym u64 = "64 word"

text \<open>
  \<^verbatim>\<open>struct vhost_memory_region\<close>: one entry of the region table \<^verbatim>\<open>dev->mem->regions\<close>.
  The padding field carries no information and is left out.
\<close>

record vhost_memory_region =
  guest_phys_addr :: u64
  memory_size :: u64
  userspace_addr :: u64

text \<open>
  Modelled from the spec: \<^verbatim>\<open>range.h\<close> is included by vhost.c but is not among the
  sources. The last byte of a range is \<open>offset + len - 1\<close> (the spec's \<open>last_byte\<close>,
  and what line 261 of vhost.c writes out by hand), in 64-bit arithmetic.
\<close>

definition range_get_last :: "u64 \<Rightarrow> u64 \<Rightarrow> u64" where
  "range_get_last offset len = offset + len - 1"

text \<open>
  Modelled from the spec: \<^verbatim>\<open>ranges_overlap\<close> of \<^verbatim>\<open>range.h\<close> (not among the sources):
  two ranges overlap unless one ends before the other starts.
\<close>

definition ranges_overlap :: "u64 \<Rightarrow> u64 \<Rightarrow> u64 \<Rightarrow> u64 \<Rightarrow> bool" where
  "ranges_overlap first1 len1 first2 len2 =
     (let last1 = range_get_last first1 len1;
          last2 = range_get_last first2 len2
      in \<not> (last2 < first1 \<or> last1 < first2))"

section \<open>\<^verbatim>\<open>vhost_dev_unassign_memory\<close>\<close>

text \<open>
  The loop state: \<open>regs_to\<close> is \<^verbatim>\<open>regions[0..to)\<close>, \<open>reg_n\<close> is the entry a split writes
  at \<^verbatim>\<open>regions[n]\<close>, \<open>nregions\<close> is \<^verbatim>\<open>dev->mem->nregions\<close>, and the four counters are the
  sanity counters of the function. \<open>None\<close> is a failed \<^verbatim>\<open>assert\<close>.
\<close>

record unassign_state =
  regs_to :: "vhost_memory_region list"
  reg_n :: "vhost_memory_region option"
  nregions :: int
  overlap_start :: nat
  overlap_end :: nat
  overlap_middle :: nat
  split :: nat

definition unassign_step ::
  "u64 \<Rightarrow> u64 \<Rightarrow> int \<Rightarrow> unassign_state \<Rightarrow> vhost_memory_region \<Rightarrow> unassign_state option" where
  "unassign_step start_addr len n st reg =
    (if \<not> ranges_overlap (guest_phys_addr reg) (memory_size reg) start_addr len
     then Some (st\<lparr>regs_to := regs_to st @ [reg]\<rparr>)
     else if split st \<noteq> 0 then None
     else
       let reglast = range_get_last (guest_phys_addr reg) (memory_size reg);
           memlast = range_get_last start_addr len
       in
       if start_addr \<le> guest_phys_addr reg \<and> memlast \<ge> reglast
       then Some (st\<lparr>nregions := nregions st - 1,
                     overlap_middle := overlap_middle st + 1\<rparr>)
       else if memlast \<ge> reglast
       then
         let reg' = reg\<lparr>memory_size := start_addr - guest_phys_addr reg\<rparr> in
         if memory_size reg' = 0 then None
         else if overlap_end st \<noteq> 0 then None
         else Some (st\<lparr>regs_to := regs_to st @ [reg'],
                       overlap_end := overlap_end st + 1\<rparr>)
       else if start_addr \<le> guest_phys_addr reg
       then
         let change = memlast + 1 - guest_phys_addr reg;
             reg' = \<lparr>guest_phys_addr = guest_phys_addr reg + change,
                     memory_size = memory_size reg - change,
                     userspace_addr = userspace_addr reg + change\<rparr>
         in
         if memory_size reg' = 0 then None
         else if overlap_start st \<noteq> 0 then None
         else Some (st\<lparr>regs_to := regs_to st @ [reg'],
                       overlap_start := overlap_start st + 1\<rparr>)
       else if overlap_start st \<noteq> 0 \<or> overlap_end st \<noteq> 0 \<or> overlap_middle st \<noteq> 0
       then None
       else
         let low = reg\<lparr>memory_size := start_addr - guest_phys_addr reg\<rparr> in
         if memory_size low = 0 then None
         else
           let change = memlast + 1 - guest_phys_addr reg;
               high_size = memory_size reg - change
           in
           if high_size = 0 then None
           else
             let high = \<lparr>guest_phys_addr = guest_phys_addr reg + change,
                         memory_size = high_size,
                         userspace_addr = userspace_addr reg + change\<rparr>
             in
             if nregions st \<noteq> n then None
             else Some (st\<lparr>regs_to := regs_to st @ [low],
                           reg_n := Some high,
                           nregions := nregions st + 1,
                           split := split st + 1\<rparr>))"

fun unassign_loop ::
  "u64 \<Rightarrow> u64 \<Rightarrow> int \<Rightarrow> unassign_state \<Rightarrow> vhost_memory_region list \<Rightarrow> unassign_state option" where
  "unassign_loop start_addr len n st [] = Some st"
| "unassign_loop start_addr len n st (reg # rest) =
     (case unassign_step start_addr len n st reg of
        None \<Rightarrow> None
      | Some st' \<Rightarrow> unassign_loop start_addr len n st' rest)"

definition unassign_init :: "vhost_memory_region list \<Rightarrow> unassign_state" where
  "unassign_init regions =
     \<lparr>regs_to = [], reg_n = None, nregions = int (length regions),
      overlap_start = 0, overlap_end = 0, overlap_middle = 0, split = 0\<rparr>"

text \<open>The table after the loop: \<^verbatim>\<open>regions[0..to)\<close> followed by the split-off entry, if any.\<close>

definition unassign_table :: "unassign_state \<Rightarrow> vhost_memory_region list" where
  "unassign_table st = regs_to st @ (case reg_n st of None \<Rightarrow> [] | Some r \<Rightarrow> [r])"

definition vhost_dev_unassign_memory ::
  "vhost_memory_region list \<Rightarrow> u64 \<Rightarrow> u64 \<Rightarrow> vhost_memory_region list option" where
  "vhost_dev_unassign_memory regions start_addr len =
     map_option unassign_table
       (unassign_loop start_addr len (int (length regions)) (unassign_init regions) regions)"

section \<open>\<^verbatim>\<open>vhost_dev_assign_memory\<close>\<close>

text \<open>
  The loop state: \<open>regs_out\<close> is \<^verbatim>\<open>regions[0..to)\<close>, \<open>merged\<close> is the index the pointer
  \<^verbatim>\<open>merged\<close> refers to (\<open>None\<close> for \<^verbatim>\<open>NULL\<close>), and \<open>cur_start\<close>, \<open>cur_size\<close>, \<open>cur_uaddr\<close>
  are the parameters \<^verbatim>\<open>start_addr\<close>, \<^verbatim>\<open>size\<close>, \<^verbatim>\<open>uaddr\<close>, which the loop overwrites.
\<close>

record assign_state =
  regs_out :: "vhost_memory_region list"
  merged :: "nat option"
  cur_start :: u64
  cur_size :: u64
  cur_uaddr :: u64

definition assign_step :: "assign_state \<Rightarrow> vhost_memory_region \<Rightarrow> assign_state option" where
  "assign_step st reg =
    (let prlast = range_get_last (guest_phys_addr reg) (memory_size reg);
         pmlast = range_get_last (cur_start st) (cur_size st);
         urlast = range_get_last (userspace_addr reg) (memory_size reg);
         umlast = range_get_last (cur_uaddr st) (cur_size st)
     in
     if \<not> (prlast < cur_start st \<or> pmlast < guest_phys_addr reg) then None
     else if (prlast + 1 \<noteq> cur_start st \<or> urlast + 1 \<noteq> cur_uaddr st) \<and>
             (pmlast + 1 \<noteq> guest_phys_addr reg \<or> umlast + 1 \<noteq> userspace_addr reg)
     then Some (st\<lparr>regs_out := regs_out st @ [reg]\<rparr>)
     else
       let u = min (cur_uaddr st) (userspace_addr reg);
           s = min (cur_start st) (guest_phys_addr reg);
           e = max pmlast prlast;
           m = \<lparr>guest_phys_addr = s, memory_size = e - s + 1, userspace_addr = u\<rparr>
       in
       if memory_size m = 0 then None
       else
         (case merged st of
            Some i \<Rightarrow>
              Some (st\<lparr>regs_out := (regs_out st)[i := m],
                       cur_start := s, cur_size := e - s + 1, cur_uaddr := u\<rparr>)
          | None \<Rightarrow>
              Some (st\<lparr>regs_out := regs_out st @ [m],
                       merged := Some (length (regs_out st)),
                       cur_start := s, cur_size := e - s + 1, cur_uaddr := u\<rparr>)))"

fun assign_loop :: "assign_state \<Rightarrow> vhost_memory_region list \<Rightarrow> assign_state option" where
  "assign_loop st [] = Some st"
| "assign_loop st (reg # rest) =
     (case assign_step st reg of
        None \<Rightarrow> None
      | Some st' \<Rightarrow> assign_loop st' rest)"

definition assign_finish :: "assign_state \<Rightarrow> vhost_memory_region list option" where
  "assign_finish st =
    (case merged st of
       Some i \<Rightarrow> Some (regs_out st)
     | None \<Rightarrow>
         if cur_size st = 0 then None
         else Some (regs_out st @
                [\<lparr>guest_phys_addr = cur_start st, memory_size = cur_size st,
                  userspace_addr = cur_uaddr st\<rparr>]))"

definition vhost_dev_assign_memory ::
  "vhost_memory_region list \<Rightarrow> u64 \<Rightarrow> u64 \<Rightarrow> u64 \<Rightarrow> vhost_memory_region list option" where
  "vhost_dev_assign_memory regions start_addr len uaddr =
    (case assign_loop \<lparr>regs_out = [], merged = None, cur_start = start_addr,
                       cur_size = len, cur_uaddr = uaddr\<rparr> regions of
       None \<Rightarrow> None
     | Some st \<Rightarrow> assign_finish st)"

definition unassign_pieces :: "u64 \<Rightarrow> u64 \<Rightarrow> vhost_memory_region \<Rightarrow> vhost_memory_region list" where
  "unassign_pieces start_addr len reg =
    (let reglast = range_get_last (guest_phys_addr reg) (memory_size reg);
         memlast = range_get_last start_addr len;
         change = memlast + 1 - guest_phys_addr reg;
         low = reg\<lparr>memory_size := start_addr - guest_phys_addr reg\<rparr>;
         high = \<lparr>guest_phys_addr = guest_phys_addr reg + change,
                 memory_size = memory_size reg - change,
                 userspace_addr = userspace_addr reg + change\<rparr>
     in
     if \<not> ranges_overlap (guest_phys_addr reg) (memory_size reg) start_addr len then [reg]
     else if start_addr \<le> guest_phys_addr reg \<and> memlast \<ge> reglast then []
     else if memlast \<ge> reglast then [low]
     else if start_addr \<le> guest_phys_addr reg then [high]
     else [low, high])"

definition reg_lo :: "vhost_memory_region \<Rightarrow> nat" where
  "reg_lo r = unat (guest_phys_addr r)"

definition reg_hi :: "vhost_memory_region \<Rightarrow> nat" where
  "reg_hi r = unat (guest_phys_addr r) + unat (memory_size r)"

definition range_ok :: "u64 \<Rightarrow> u64 \<Rightarrow> bool" where
  "range_ok start_addr len \<longleftrightarrow> len \<noteq> 0 \<and> start_addr \<le> range_get_last start_addr len"

definition gpa_ok :: "vhost_memory_region \<Rightarrow> bool" where
  "gpa_ok r \<longleftrightarrow> range_ok (guest_phys_addr r) (memory_size r)"

definition low_part :: "u64 \<Rightarrow> vhost_memory_region \<Rightarrow> vhost_memory_region" where
  "low_part s r = r\<lparr>memory_size := s - guest_phys_addr r\<rparr>"

definition high_part :: "u64 \<Rightarrow> u64 \<Rightarrow> vhost_memory_region \<Rightarrow> vhost_memory_region" where
  "high_part s l r =
     (let change = range_get_last s l + 1 - guest_phys_addr r
      in \<lparr>guest_phys_addr = guest_phys_addr r + change,
          memory_size = memory_size r - change,
          userspace_addr = userspace_addr r + change\<rparr>)"

text \<open>p is a nonempty sub-range of r that keeps r's gpa-to-hva offset and avoids [s, s+l).\<close>

definition piece_of :: "u64 \<Rightarrow> u64 \<Rightarrow> vhost_memory_region \<Rightarrow> vhost_memory_region \<Rightarrow> bool" where
  "piece_of s l r p \<longleftrightarrow>
     gpa_ok p \<and> reg_lo r \<le> reg_lo p \<and> reg_hi p \<le> reg_hi r \<and>
     (reg_hi p \<le> unat s \<and> reg_lo p = reg_lo r \<or> unat s + unat l \<le> reg_lo p \<and> reg_hi p = reg_hi r) \<and>
     userspace_addr p - guest_phys_addr p = userspace_addr r - guest_phys_addr r"

definition regions_overlap :: "vhost_memory_region \<Rightarrow> vhost_memory_region \<Rightarrow> bool" where
  "regions_overlap a b =
     ranges_overlap (guest_phys_addr a) (memory_size a) (guest_phys_addr b) (memory_size b)"

definition table_inv :: "vhost_memory_region list \<Rightarrow> bool" where
  "table_inv rt \<longleftrightarrow>
     distinct rt \<and> (\<forall>r\<in>set rt. gpa_ok r) \<and>
     (\<forall>a\<in>set rt. \<forall>b\<in>set rt. a \<noteq> b \<longrightarrow> \<not> regions_overlap a b)"

definition adjacent :: "vhost_memory_region \<Rightarrow> vhost_memory_region \<Rightarrow> bool" where
  "adjacent a b \<longleftrightarrow>
     range_get_last (guest_phys_addr a) (memory_size a) + 1 = guest_phys_addr b \<and>
     range_get_last (userspace_addr a) (memory_size a) + 1 = userspace_addr b"

definition merge_maximal :: "vhost_memory_region list \<Rightarrow> bool" where
  "merge_maximal rt \<longleftrightarrow> (\<forall>a\<in>set rt. \<forall>b\<in>set rt. \<not> adjacent a b)"

definition hva_ok :: "vhost_memory_region \<Rightarrow> bool" where
  "hva_ok r \<longleftrightarrow> userspace_addr r \<le> userspace_addr r + memory_size r"

definition unassign_counters_ok ::
  "u64 \<Rightarrow> u64 \<Rightarrow> int \<Rightarrow> vhost_memory_region list \<Rightarrow> unassign_state \<Rightarrow> bool" where
  "unassign_counters_ok s l n seen st \<longleftrightarrow>
     (split st \<noteq> 0 \<longrightarrow> (\<exists>r\<in>set seen. reg_lo r < unat s \<and> unat s + unat l < reg_hi r)) \<and>
     (overlap_end st \<noteq> 0 \<longrightarrow> (\<exists>r\<in>set seen. reg_lo r < unat s \<and> unat s < reg_hi r)) \<and>
     (overlap_start st \<noteq> 0 \<longrightarrow>
        (\<exists>r\<in>set seen. reg_lo r < unat s + unat l \<and> unat s + unat l < reg_hi r)) \<and>
     (overlap_middle st \<noteq> 0 \<longrightarrow>
        (\<exists>r\<in>set seen. unat s \<le> reg_lo r \<and> reg_hi r \<le> unat s + unat l)) \<and>
     nregions st = n - int (overlap_middle st) + int (split st)"

definition cur_reg :: "assign_state \<Rightarrow> vhost_memory_region" where
  "cur_reg st = \<lparr>guest_phys_addr = cur_start st, memory_size = cur_size st,
                 userspace_addr = cur_uaddr st\<rparr>"

definition merge_reg :: "vhost_memory_region \<Rightarrow> vhost_memory_region \<Rightarrow> vhost_memory_region" where
  "merge_reg c reg =
    (let s = min (guest_phys_addr c) (guest_phys_addr reg);
         e = max (range_get_last (guest_phys_addr c) (memory_size c))
                 (range_get_last (guest_phys_addr reg) (memory_size reg))
     in \<lparr>guest_phys_addr = s, memory_size = e - s + 1,
         userspace_addr = min (userspace_addr c) (userspace_addr reg)\<rparr>)"

definition join_reg :: "vhost_memory_region \<Rightarrow> vhost_memory_region \<Rightarrow> vhost_memory_region" where
  "join_reg a b = \<lparr>guest_phys_addr = guest_phys_addr a,
                   memory_size = memory_size a + memory_size b,
                   userspace_addr = userspace_addr a\<rparr>"

definition assign_view :: "assign_state \<Rightarrow> vhost_memory_region list \<Rightarrow> vhost_memory_region list" where
  "assign_view st rest =
     regs_out st @ (case merged st of None \<Rightarrow> [cur_reg st] | Some i \<Rightarrow> []) @ rest"

definition slot_ok :: "assign_state \<Rightarrow> bool" where
  "slot_ok st \<longleftrightarrow>
     (case merged st of None \<Rightarrow> True
      | Some i \<Rightarrow> i < length (regs_out st) \<and> regs_out st ! i = cur_reg st)"

section \<open>Sequences of region-table operations\<close>

text \<open>
  The two ways \<^verbatim>\<open>vhost_set_memory\<close> changes the table: an unassign alone, or an unassign
  followed by an assign of the same range (lines 396 to 403).
\<close>

datatype rt_op = Unassign u64 u64 | Assign u64 u64 u64

fun apply_op :: "vhost_memory_region list \<Rightarrow> rt_op \<Rightarrow> vhost_memory_region list option" where
  "apply_op rt (Unassign g l) = vhost_dev_unassign_memory rt g l"
| "apply_op rt (Assign g l h) =
     (case vhost_dev_unassign_memory rt g l of
        None \<Rightarrow> None
      | Some rt1 \<Rightarrow> vhost_dev_assign_memory rt1 g l h)"

fun run_ops :: "vhost_memory_region list \<Rightarrow> rt_op list \<Rightarrow> vhost_memory_region list option" where
  "run_ops rt [] = Some rt"
| "run_ops rt (x # xs) =
     (case apply_op rt x of None \<Rightarrow> None | Some rt' \<Rightarrow> run_ops rt' xs)"

fun op_range_ok :: "rt_op \<Rightarrow> bool" where
  "op_range_ok (Unassign g l) = range_ok g l"
| "op_range_ok (Assign g l h) = range_ok g l"

text \<open>The guest-physical bytes a region covers.\<close>

definition region_bytes :: "vhost_memory_region \<Rightarrow> u64 set" where
  "region_bytes r =
     {a. guest_phys_addr r \<le> a \<and> a \<le> range_get_last (guest_phys_addr r) (memory_size r)}"

definition demo_ops :: "rt_op list" where
  "demo_ops = [Assign 0 0x10000 0x80000000, Unassign 0x4000 0x4000,
               Assign 0x4000 0x1000 0x90000000]"

definition demo_table :: "vhost_memory_region list" where
  "demo_table =
     [\<lparr>guest_phys_addr = 0, memory_size = 0x4000, userspace_addr = 0x80000000\<rparr>,
      \<lparr>guest_phys_addr = 0x8000, memory_size = 0x8000, userspace_addr = 0x80008000\<rparr>,
      \<lparr>guest_phys_addr = 0x4000, memory_size = 0x1000, userspace_addr = 0x90000000\<rparr>]"

definition table_ok :: "vhost_memory_region list \<Rightarrow> bool" where
  "table_ok rt \<longleftrightarrow> table_inv rt \<and> merge_maximal rt \<and> (\<forall>r\<in>set rt. hva_ok r)"

definition assign_mm :: "assign_state \<Rightarrow> vhost_memory_region list \<Rightarrow> bool" where
  "assign_mm st rest \<longleftrightarrow>
     (\<forall>x\<in>set (assign_view st rest). hva_ok x) \<and>
     (\<forall>x\<in>set (assign_view st rest). \<forall>y\<in>set (assign_view st rest).
        adjacent x y \<longrightarrow> (x = cur_reg st \<and> y \<in> set rest) \<or> (y = cur_reg st \<and> x \<in> set rest))"

text \<open>
  An operation whose guest-physical range is nonempty and does not wrap and, for an
  assign, whose host-virtual end address \<open>hva + size\<close> does not overflow 64 bits.
\<close>

fun op_ok :: "rt_op \<Rightarrow> bool" where
  "op_ok (Unassign g l) = range_ok g l"
| "op_ok (Assign g l h) = (range_ok g l \<and> h \<le> h + l)"

text \<open>
  Four adds. The third fills the gap between the first two and is merged with both;
  the fourth is adjacent to the merged region in guest-physical addresses only and
  stays apart.
\<close>

definition merge_ops :: "rt_op list" where
  "merge_ops = [Assign 0 0x1000 0x80000000, Assign 0x2000 0x1000 0x80002000,
                Assign 0x1000 0x1000 0x80001000, Assign 0x3000 0x1000 0xA0000000]"

definition merge_table :: "vhost_memory_region list" where
  "merge_table =
     [\<lparr>guest_phys_addr = 0, memory_size = 0x3000, userspace_addr = 0x80000000\<rparr>,
      \<lparr>guest_phys_addr = 0x3000, memory_size = 0x1000, userspace_addr = 0xA0000000\<rparr>]"

definition assign_rt ::
  "u64 \<Rightarrow> u64 \<Rightarrow> u64 \<Rightarrow> vhost_memory_region list \<Rightarrow> assign_state \<Rightarrow>
   vhost_memory_region list \<Rightarrow> bool" where
  "assign_rt s l u rt0 st rest \<longleftrightarrow>
     mset (assign_view st rest) + mset (unassign_pieces s l (cur_reg st)) =
       add_mset (cur_reg st) (mset rt0) \<and>
     reg_lo (cur_reg st) \<le> unat s \<and> unat s + unat l \<le> reg_hi (cur_reg st) \<and>
     userspace_addr (cur_reg st) - guest_phys_addr (cur_reg st) = u - s"

section \<open>The device, its log and the control channel\<close>

text \<open>
  \<^verbatim>\<open>struct vhost_virtqueue\<close>, with the fields vhost.c reads in the functions below
  (\<^verbatim>\<open>vhost.h\<close> is not among the sources; the field widths are the spec's).
\<close>

record vhost_virtqueue =
  used_phys :: u64
  used_size :: u64
  ring_phys :: u64
  ring_size :: u64
  ring :: u64

text \<open>
  \<^verbatim>\<open>MemoryRegionSection\<close>. The memory region \<^verbatim>\<open>section->mr\<close> belongs to the memory
  subsystem; the two things vhost.c asks of it are fields here: \<open>mr_logging\<close> is
  \<^verbatim>\<open>memory_region_is_logging(section->mr)\<close> and \<open>mr_ram_ptr\<close> is
  \<^verbatim>\<open>memory_region_get_ram_ptr(section->mr)\<close>.
\<close>

record memory_region_section =
  offset_within_address_space :: u64
  section_size :: u64
  offset_within_region :: u64
  mr_logging :: bool
  mr_ram_ptr :: u64

text \<open>
  \<^verbatim>\<open>struct vhost_dev\<close>: \<open>mem\<close> is \<^verbatim>\<open>dev->mem->regions[0..nregions)\<close>, \<open>vqs\<close> the
  \<^verbatim>\<open>nvqs\<close> virtqueues, \<open>log\<close> the words of the log buffer (\<open>[]\<close> for \<^verbatim>\<open>NULL\<close>; a word
  is \<^verbatim>\<open>vhost_log_chunk_t\<close>, an \<^verbatim>\<open>unsigned long\<close> of 64 bits) and \<open>log_size\<close> the field of
  that name.
\<close>

record vhost_dev =
  mem :: "vhost_memory_region list"
  mem_sections :: "memory_region_section list"
  vqs :: "vhost_virtqueue list"
  acked_features :: u64
  started :: bool
  log_enabled :: bool
  log :: "u64 list"
  log_size :: u64

text \<open>
  The constants of \<^verbatim>\<open>vhost.h\<close> and \<^verbatim>\<open>linux/vhost.h\<close>, which are not among the sources,
  are a parameter of the model: \<^verbatim>\<open>VHOST_LOG_PAGE\<close>, \<^verbatim>\<open>VHOST_LOG_CHUNK\<close> and the bit number
  \<^verbatim>\<open>VHOST_F_LOG_ALL\<close>.
\<close>

record vhost_consts =
  LOG_PAGE :: u64
  LOG_CHUNK :: u64
  F_LOG_ALL :: nat

text \<open>Their values on Linux with 64-bit \<^verbatim>\<open>unsigned long\<close>, for concrete runs.\<close>

definition lp64_consts :: vhost_consts where
  "lp64_consts = \<lparr>LOG_PAGE = 0x1000, LOG_CHUNK = 0x40000, F_LOG_ALL = 26\<rparr>"

text \<open>\<^verbatim>\<open>#define VHOST_LOG_BUFFER (0x1000 / sizeof *dev->log)\<close>, with 8-byte log words.\<close>

definition VHOST_LOG_BUFFER :: u64 where
  "VHOST_LOG_BUFFER = 0x1000 div 8"

text \<open>
  What leaves the device: the commands issued on \<^verbatim>\<open>dev->control\<close>, oldest first, the
  accelerator's configuration as the successful commands have set it (its feature bits
  and the log flag of each queue, by index), and the calls of
  \<^verbatim>\<open>memory_region_set_dirty\<close> (address, size). \<open>SET_LOG_BASE\<close> carries the number of words
  of the buffer whose address is pushed; \<open>SET_VRING_ADDR\<close> the queue index and whether
  the flag \<^verbatim>\<open>1 << VHOST_VRING_F_LOG\<close> is set.
\<close>

datatype ctl_cmd =
  SET_LOG_BASE u64
  | SET_MEM_TABLE "vhost_memory_region list"
  | SET_FEATURES u64
  | SET_VRING_ADDR nat bool

record world =
  trace :: "ctl_cmd list"
  accel_features :: u64
  accel_vring_log :: "bool list"
  dirty :: "(u64 \<times> u64) list"

text \<open>
  What the environment decides: \<open>ioctl_errno n\<close> is the \<^verbatim>\<open>errno\<close> of the \<open>n\<close>-th command
  issued (\<open>0\<close>: it succeeds), and \<open>phys_map\<close> is \<^verbatim>\<open>cpu_physical_memory_map\<close> (the pointer
  and the length it maps).
\<close>

record env =
  ioctl_errno :: "nat \<Rightarrow> nat"
  phys_map :: "u64 \<Rightarrow> u64 \<Rightarrow> u64 \<times> u64"

datatype fault = Assert_failed | Out_of_bounds

fun accel_apply :: "ctl_cmd \<Rightarrow> world \<Rightarrow> world" where
  "accel_apply (SET_FEATURES f) w = w\<lparr>accel_features := f\<rparr>"
| "accel_apply (SET_VRING_ADDR i b) w = w\<lparr>accel_vring_log := (accel_vring_log w)[i := b]\<rparr>"
| "accel_apply (SET_LOG_BASE n) w = w"
| "accel_apply (SET_MEM_TABLE t) w = w"

text \<open>A command: it is recorded, and takes effect when it succeeds. The result is the
  return value of \<^verbatim>\<open>ioctl\<close> and \<^verbatim>\<open>errno\<close>.\<close>

definition ioctl :: "env \<Rightarrow> world \<Rightarrow> ctl_cmd \<Rightarrow> world \<times> int \<times> int" where
  "ioctl e w c =
     (let n = length (trace w); w' = w\<lparr>trace := trace w @ [c]\<rparr>
      in if ioctl_errno e n = 0 then (accel_apply c w', 0, 0)
         else (w', - 1, int (ioctl_errno e n)))"

subsection \<open>\<^verbatim>\<open>vhost_dev_sync_region\<close> and \<^verbatim>\<open>vhost_sync_dirty_bitmap\<close>\<close>

text \<open>\<^verbatim>\<open>ffsll\<close>: one plus the index of the least significant set bit, \<open>0\<close> for \<open>0\<close>.\<close>

definition ffsll :: "u64 \<Rightarrow> nat" where
  "ffsll w = (case find (bit w) [0..<64] of None \<Rightarrow> 0 | Some n \<Rightarrow> Suc n)"

text \<open>
  The inner \<^verbatim>\<open>while\<close> loop over the bits of a harvested word: each set bit, lowest
  first, is reported dirty at \<^verbatim>\<open>section->offset_within_region + bit * VHOST_LOG_PAGE\<close>
  and cleared from the local copy.
\<close>

function harvest :: "vhost_consts \<Rightarrow> memory_region_section \<Rightarrow> world \<Rightarrow> u64 \<Rightarrow> world" where
  "harvest k section w lg =
     (if ffsll lg = 0 then w
      else
        let bit = ffsll lg - 1;
            ram_addr = offset_within_region section + of_nat bit * LOG_PAGE k
        in harvest k section (w\<lparr>dirty := dirty w @ [(ram_addr, LOG_PAGE k)]\<rparr>)
             (lg AND NOT (push_bit bit 1)))"
  by pat_completeness auto

termination
proof (relation "measure (\<lambda>(k, sec, w, lg). unat lg)")
  show "wf (measure (\<lambda>(k, sec, w, lg). unat lg))" by simp
next
  fix k :: vhost_consts and sec :: memory_region_section and w :: world and lg :: u64
    and x :: nat and xa :: u64
  assume nz: "ffsll lg \<noteq> 0" and x: "x = ffsll lg - 1"
  from nz obtain n where f: "find (bit lg) [0..<64] = Some n" and n: "ffsll lg = Suc n"
    by (auto simp: ffsll_def split: option.splits)
  from f have b: "bit lg n" by (auto simp: find_Some_iff)
  have "\<not> bit (lg AND NOT (push_bit n 1)) n" by (simp add: bit_simps)
  with b have ne: "lg AND NOT (push_bit n 1) \<noteq> lg" by auto
  have "lg AND NOT (push_bit n 1) \<le> lg" by (rule word_and_le2)
  with ne have "lg AND NOT (push_bit n 1) < lg" by simp
  then have "unat (lg AND NOT (push_bit n 1)) < unat lg" by (simp add: word_less_nat_alt)
  with x n show "((k, sec, w\<lparr>dirty := dirty w @ [(xa, LOG_PAGE k)]\<rparr>,
                  lg AND NOT (push_bit x 1)), k, sec, w, lg)
                 \<in> measure (\<lambda>(k, sec, w, lg). unat lg)" by simp
qed

text \<open>
  The \<^verbatim>\<open>for (; from < to; ++from)\<close> loop over the log words \<open>from\<close>, ..., \<open>to - 1\<close>. A word
  that reads zero is skipped; otherwise \<^verbatim>\<open>__sync_fetch_and_and(from, 0)\<close> reads it and
  leaves zero, and its bits are harvested. \<open>addr\<close> is advanced as in the source, which
  never reads it. A word outside the buffer is the fault \<open>Out_of_bounds\<close>.
\<close>

function sync_loop ::
  "vhost_consts \<Rightarrow> memory_region_section \<Rightarrow> vhost_dev \<Rightarrow> world \<Rightarrow> nat \<Rightarrow> nat \<Rightarrow> u64 \<Rightarrow>
   fault + vhost_dev \<times> world" where
  "sync_loop k section dev w from to addr =
     (if from < to then
        if length (log dev) \<le> from then Inl Out_of_bounds
        else if log dev ! from = 0
        then sync_loop k section dev w (from + 1) to (addr + LOG_CHUNK k)
        else
          let lg = log dev ! from;
              dev' = dev\<lparr>log := (log dev)[from := 0]\<rparr>;
              w' = harvest k section w lg
          in sync_loop k section dev' w' (from + 1) to (addr + LOG_CHUNK k)
      else Inr (dev, w))"
  by pat_completeness auto

termination
  by (relation "measure (\<lambda>(k, section, dev, w, from, to, addr). to - from)") auto

definition vhost_dev_sync_region ::
  "vhost_consts \<Rightarrow> vhost_dev \<Rightarrow> world \<Rightarrow> memory_region_section \<Rightarrow> u64 \<Rightarrow> u64 \<Rightarrow> u64 \<Rightarrow> u64 \<Rightarrow>
   fault + vhost_dev \<times> world" where
  "vhost_dev_sync_region k dev w section mfirst mlast rfirst rlast =
     (let start = max mfirst rfirst;
          end = min mlast rlast;
          from = unat (start div LOG_CHUNK k);
          to = unat (end div LOG_CHUNK k) + 1;
          addr = (start div LOG_CHUNK k) * LOG_CHUNK k
      in
      if end < start then Inr (dev, w)
      else if \<not> end div LOG_CHUNK k < log_size dev then Inl Assert_failed
      else if \<not> start div LOG_CHUNK k < log_size dev then Inl Assert_failed
      else sync_loop k section dev w from to addr)"

fun sync_regions ::
  "vhost_consts \<Rightarrow> memory_region_section \<Rightarrow> u64 \<Rightarrow> u64 \<Rightarrow> vhost_dev \<Rightarrow> world \<Rightarrow>
   vhost_memory_region list \<Rightarrow> fault + vhost_dev \<times> world" where
  "sync_regions k section start_addr end_addr dev w [] = Inr (dev, w)"
| "sync_regions k section start_addr end_addr dev w (reg # regs) =
     (case vhost_dev_sync_region k dev w section start_addr end_addr (guest_phys_addr reg)
             (range_get_last (guest_phys_addr reg) (memory_size reg)) of
        Inl f \<Rightarrow> Inl f
      | Inr (dev', w') \<Rightarrow> sync_regions k section start_addr end_addr dev' w' regs)"

fun sync_vqs ::
  "vhost_consts \<Rightarrow> memory_region_section \<Rightarrow> u64 \<Rightarrow> u64 \<Rightarrow> vhost_dev \<Rightarrow> world \<Rightarrow>
   vhost_virtqueue list \<Rightarrow> fault + vhost_dev \<times> world" where
  "sync_vqs k section start_addr end_addr dev w [] = Inr (dev, w)"
| "sync_vqs k section start_addr end_addr dev w (vq # rest) =
     (case vhost_dev_sync_region k dev w section start_addr end_addr (used_phys vq)
             (range_get_last (used_phys vq) (used_size vq)) of
        Inl f \<Rightarrow> Inl f
      | Inr (dev', w') \<Rightarrow> sync_vqs k section start_addr end_addr dev' w' rest)"

definition vhost_sync_dirty_bitmap ::
  "vhost_consts \<Rightarrow> vhost_dev \<Rightarrow> world \<Rightarrow> memory_region_section \<Rightarrow> u64 \<Rightarrow> u64 \<Rightarrow>
   fault + vhost_dev \<times> world" where
  "vhost_sync_dirty_bitmap k dev w section start_addr end_addr =
     (if \<not> log_enabled dev \<or> \<not> started dev then Inr (dev, w)
      else
        case sync_regions k section start_addr end_addr dev w (mem dev) of
          Inl f \<Rightarrow> Inl f
        | Inr (dev', w') \<Rightarrow> sync_vqs k section start_addr end_addr dev' w' (vqs dev'))"

definition vhost_log_sync ::
  "vhost_consts \<Rightarrow> vhost_dev \<Rightarrow> world \<Rightarrow> memory_region_section \<Rightarrow> fault + vhost_dev \<times> world" where
  "vhost_log_sync k dev w section =
     (let start_addr = offset_within_address_space section;
          end_addr = start_addr + section_size section
      in vhost_sync_dirty_bitmap k dev w section start_addr end_addr)"

subsection \<open>\<^verbatim>\<open>vhost_get_log_size\<close> and \<^verbatim>\<open>vhost_dev_log_resize\<close>\<close>

definition vhost_get_log_size :: "vhost_consts \<Rightarrow> vhost_dev \<Rightarrow> u64" where
  "vhost_get_log_size k dev =
     (let log_size1 =
            foldl (\<lambda>log_size reg.
                     let last = range_get_last (guest_phys_addr reg) (memory_size reg)
                     in max log_size (last div LOG_CHUNK k + 1))
                  0 (mem dev)
      in foldl (\<lambda>log_size vq.
                  let last = used_phys vq + used_size vq - 1
                  in max log_size (last div LOG_CHUNK k + 1))
               log_size1 (vqs dev))"

fun sync_sections ::
  "vhost_consts \<Rightarrow> u64 \<Rightarrow> u64 \<Rightarrow> vhost_dev \<Rightarrow> world \<Rightarrow> memory_region_section list \<Rightarrow>
   fault + vhost_dev \<times> world" where
  "sync_sections k start_addr end_addr dev w [] = Inr (dev, w)"
| "sync_sections k start_addr end_addr dev w (section # rest) =
     (case vhost_sync_dirty_bitmap k dev w section start_addr end_addr of
        Inl f \<Rightarrow> Inl f
      | Inr (dev', w') \<Rightarrow> sync_sections k start_addr end_addr dev' w' rest)"

text \<open>
  \<^verbatim>\<open>vhost_dev_log_resize\<close>: allocate the zeroed new log, push its base (asserted to
  succeed), sync every tracked section over the range of the old log, then install the
  new log and its size.
\<close>

definition vhost_dev_log_resize ::
  "env \<Rightarrow> vhost_consts \<Rightarrow> vhost_dev \<Rightarrow> world \<Rightarrow> u64 \<Rightarrow> fault + vhost_dev \<times> world" where
  "vhost_dev_log_resize e k dev w sz =
     (let new_log = replicate (unat sz) (0 :: u64) in
      case ioctl e w (SET_LOG_BASE sz) of
        (w1, r, errno) \<Rightarrow>
          if r < 0 then Inl Assert_failed
          else
            case sync_sections k 0 (log_size dev * LOG_CHUNK k - 1) dev w1 (mem_sections dev) of
              Inl f \<Rightarrow> Inl f
            | Inr (dev', w2) \<Rightarrow> Inr (dev'\<lparr>log := new_log, log_size := sz\<rparr>, w2))"

subsection \<open>\<^verbatim>\<open>vhost_set_memory\<close>\<close>

text \<open>\<^verbatim>\<open>vhost_verify_ring_mappings\<close>: \<open>0\<close>, or \<^verbatim>\<open>-ENOMEM\<close> (\<open>-12\<close>) or \<^verbatim>\<open>-EBUSY\<close> (\<open>-16\<close>) at
  the first virtqueue whose ring overlaps the range and no longer maps where it did.\<close>

fun vhost_verify_ring_mappings :: "env \<Rightarrow> vhost_virtqueue list \<Rightarrow> u64 \<Rightarrow> u64 \<Rightarrow> int" where
  "vhost_verify_ring_mappings e [] start_addr len = 0"
| "vhost_verify_ring_mappings e (vq # rest) start_addr len =
     (if \<not> ranges_overlap start_addr len (ring_phys vq) (ring_size vq)
      then vhost_verify_ring_mappings e rest start_addr len
      else
        case phys_map e (ring_phys vq) (ring_size vq) of
          (p, l) \<Rightarrow>
            if p = 0 \<or> l \<noteq> ring_size vq then - 12
            else if p \<noteq> ring vq then - 16
            else vhost_verify_ring_mappings e rest start_addr len)"

definition vhost_dev_find_reg ::
  "vhost_memory_region list \<Rightarrow> u64 \<Rightarrow> u64 \<Rightarrow> vhost_memory_region option" where
  "vhost_dev_find_reg regions start_addr len =
     find (\<lambda>reg. ranges_overlap (guest_phys_addr reg) (memory_size reg) start_addr len) regions"

definition vhost_dev_cmp_memory ::
  "vhost_memory_region list \<Rightarrow> u64 \<Rightarrow> u64 \<Rightarrow> u64 \<Rightarrow> bool" where
  "vhost_dev_cmp_memory regions start_addr len uaddr =
     (case vhost_dev_find_reg regions start_addr len of
        None \<Rightarrow> True
      | Some reg \<Rightarrow>
          let reglast = range_get_last (guest_phys_addr reg) (memory_size reg);
              memlast = range_get_last start_addr len
          in
          if start_addr < guest_phys_addr reg \<or> memlast > reglast then True
          else uaddr \<noteq> userspace_addr reg + start_addr - guest_phys_addr reg)"

text \<open>Lines 396 to 403: the unassign, then the assign on add and a second unassign
  otherwise.\<close>

definition set_memory_table ::
  "vhost_memory_region list \<Rightarrow> bool \<Rightarrow> u64 \<Rightarrow> u64 \<Rightarrow> u64 \<Rightarrow> vhost_memory_region list option" where
  "set_memory_table regions add start_addr len ram =
     (case vhost_dev_unassign_memory regions start_addr len of
        None \<Rightarrow> None
      | Some regions1 \<Rightarrow>
          if add then vhost_dev_assign_memory regions1 start_addr len ram
          else vhost_dev_unassign_memory regions1 start_addr len)"

text \<open>Lines 414 to 432: the push of the table, with the log resized around it when the
  log is enabled.\<close>

definition set_memory_push ::
  "env \<Rightarrow> vhost_consts \<Rightarrow> vhost_dev \<Rightarrow> world \<Rightarrow> fault + vhost_dev \<times> world" where
  "set_memory_push e k dev w =
     (if \<not> log_enabled dev then
        case ioctl e w (SET_MEM_TABLE (mem dev)) of
          (w1, r, errno) \<Rightarrow> if r < 0 then Inl Assert_failed else Inr (dev, w1)
      else
        let lsize = vhost_get_log_size k dev in
        case (if log_size dev < lsize
              then vhost_dev_log_resize e k dev w (lsize + VHOST_LOG_BUFFER)
              else Inr (dev, w)) of
          Inl f \<Rightarrow> Inl f
        | Inr (dev1, w1) \<Rightarrow>
            case ioctl e w1 (SET_MEM_TABLE (mem dev1)) of
              (w2, r, errno) \<Rightarrow>
                if r < 0 then Inl Assert_failed
                else if log_size dev1 > lsize + VHOST_LOG_BUFFER
                then vhost_dev_log_resize e k dev1 w2 lsize
                else Inr (dev1, w2))"

definition vhost_set_memory ::
  "env \<Rightarrow> vhost_consts \<Rightarrow> vhost_dev \<Rightarrow> world \<Rightarrow> memory_region_section \<Rightarrow> bool \<Rightarrow>
   fault + vhost_dev \<times> world" where
  "vhost_set_memory e k dev w section add0 =
     (let start_addr = offset_within_address_space section;
          len = section_size section;
          log_dirty = mr_logging section;
          add = (if log_dirty then False else add0)
      in
      if len = 0 then Inl Assert_failed
      else
        let ram = mr_ram_ptr section + offset_within_region section in
        if add \<and> \<not> vhost_dev_cmp_memory (mem dev) start_addr len ram then Inr (dev, w)
        else if \<not> add \<and> vhost_dev_find_reg (mem dev) start_addr len = None then Inr (dev, w)
        else
          case set_memory_table (mem dev) add start_addr len ram of
            None \<Rightarrow> Inl Assert_failed
          | Some regions \<Rightarrow>
              let dev1 = dev\<lparr>mem := regions\<rparr> in
              if \<not> started dev1 then Inr (dev1, w)
              else if vhost_verify_ring_mappings e (vqs dev1) start_addr len < 0
              then Inl Assert_failed
              else set_memory_push e k dev1 w)"

subsection \<open>The log flag: \<^verbatim>\<open>vhost_dev_set_log\<close> and \<^verbatim>\<open>vhost_migration_log\<close>\<close>

definition vhost_virtqueue_set_addr :: "env \<Rightarrow> world \<Rightarrow> nat \<Rightarrow> bool \<Rightarrow> world \<times> int" where
  "vhost_virtqueue_set_addr e w idx enable_log =
     (case ioctl e w (SET_VRING_ADDR idx enable_log) of
        (w', r, errno) \<Rightarrow> if r < 0 then (w', - errno) else (w', 0))"

definition vhost_dev_set_features ::
  "env \<Rightarrow> vhost_consts \<Rightarrow> vhost_dev \<Rightarrow> world \<Rightarrow> bool \<Rightarrow> world \<times> int" where
  "vhost_dev_set_features e k dev w enable_log =
     (let features = (if enable_log then acked_features dev OR push_bit (F_LOG_ALL k) 1
                      else acked_features dev)
      in case ioctl e w (SET_FEATURES features) of
           (w', r, errno) \<Rightarrow> if r < 0 then (w', - errno) else (w', 0))"

text \<open>The loop \<^verbatim>\<open>for (i = 0; i < dev->nvqs; ++i)\<close> of \<^verbatim>\<open>vhost_dev_set_log\<close>: \<open>Some (i, r)\<close>
  when the push for queue \<open>i\<close> returned \<open>r < 0\<close>.\<close>

fun set_log_vqs :: "env \<Rightarrow> bool \<Rightarrow> world \<Rightarrow> nat list \<Rightarrow> world \<times> (nat \<times> int) option" where
  "set_log_vqs e enable_log w [] = (w, None)"
| "set_log_vqs e enable_log w (i # rest) =
     (case vhost_virtqueue_set_addr e w i enable_log of
        (w', r) \<Rightarrow> if r < 0 then (w', Some (i, r)) else set_log_vqs e enable_log w' rest)"

text \<open>The unwind \<^verbatim>\<open>for (; i >= 0; --i)\<close> at \<^verbatim>\<open>err_vq\<close>, each push asserted to succeed.\<close>

fun set_log_unwind :: "env \<Rightarrow> bool \<Rightarrow> world \<Rightarrow> nat list \<Rightarrow> fault + world" where
  "set_log_unwind e old_log w [] = Inr w"
| "set_log_unwind e old_log w (i # rest) =
     (case vhost_virtqueue_set_addr e w i old_log of
        (w', t) \<Rightarrow> if t < 0 then Inl Assert_failed else set_log_unwind e old_log w' rest)"

definition vhost_dev_set_log ::
  "env \<Rightarrow> vhost_consts \<Rightarrow> vhost_dev \<Rightarrow> world \<Rightarrow> bool \<Rightarrow> fault + world \<times> int" where
  "vhost_dev_set_log e k dev w enable_log =
     (case vhost_dev_set_features e k dev w enable_log of
        (w1, r) \<Rightarrow>
          if r < 0 then Inr (w1, r)
          else
            case set_log_vqs e enable_log w1 [0..<length (vqs dev)] of
              (w2, None) \<Rightarrow> Inr (w2, 0)
            | (w2, Some (i, r)) \<Rightarrow>
                (case set_log_unwind e (log_enabled dev) w2 (rev [0..<Suc i]) of
                   Inl f \<Rightarrow> Inl f
                 | Inr w3 \<Rightarrow>
                     (case vhost_dev_set_features e k dev w3 (log_enabled dev) of
                        (w4, t) \<Rightarrow> if t < 0 then Inl Assert_failed else Inr (w4, r))))"

definition vhost_migration_log ::
  "env \<Rightarrow> vhost_consts \<Rightarrow> vhost_dev \<Rightarrow> world \<Rightarrow> bool \<Rightarrow> fault + vhost_dev \<times> world \<times> int" where
  "vhost_migration_log e k dev w enable =
     (if enable = log_enabled dev then Inr (dev, w, 0)
      else if \<not> started dev then Inr (dev\<lparr>log_enabled := enable\<rparr>, w, 0)
      else if \<not> enable then
        case vhost_dev_set_log e k dev w False of
          Inl f \<Rightarrow> Inl f
        | Inr (w1, r) \<Rightarrow>
            if r < 0 then Inr (dev, w1, r)
            else Inr (dev\<lparr>log := [], log_size := 0, log_enabled := enable\<rparr>, w1, 0)
      else
        case vhost_dev_log_resize e k dev w (vhost_get_log_size k dev) of
          Inl f \<Rightarrow> Inl f
        | Inr (dev1, w1) \<Rightarrow>
            case vhost_dev_set_log e k dev1 w1 True of
              Inl f \<Rightarrow> Inl f
            | Inr (w2, r) \<Rightarrow>
                if r < 0 then Inr (dev1, w2, r)
                else Inr (dev1\<lparr>log_enabled := enable\<rparr>, w2, 0))"

text \<open>
  The spec's \<open>total_log_chunks\<close>, in its own words: the maximum, over all regions and all
  virtqueue used-ranges, of \<open>ceil(last_byte / CHUNK) + 1\<close> (and \<open>0\<close> over nothing).
\<close>

definition ceil_div :: "nat \<Rightarrow> nat \<Rightarrow> nat" where
  "ceil_div a b = (a + b - 1) div b"

definition spec_total_log_chunks :: "vhost_consts \<Rightarrow> vhost_dev \<Rightarrow> nat" where
  "spec_total_log_chunks k dev =
     Max (insert 0
       ((\<lambda>reg. ceil_div (unat (range_get_last (guest_phys_addr reg) (memory_size reg)))
                  (unat (LOG_CHUNK k)) + 1) ` set (mem dev) \<union>
        (\<lambda>vq. ceil_div (unat (range_get_last (used_phys vq) (used_size vq)))
                  (unat (LOG_CHUNK k)) + 1) ` set (vqs dev)))"

definition one_page_dev :: vhost_dev where
  "one_page_dev =
     \<lparr>mem = [\<lparr>guest_phys_addr = 0, memory_size = 0x1000, userspace_addr = 0x70000000\<rparr>],
      mem_sections = [], vqs = [], acked_features = 0, started = True, log_enabled = True,
      log = [0], log_size = 1\<rparr>"

text \<open>The sync changes nothing of the device but the contents of the log, and nothing
  of the world but the dirty reports.\<close>

definition only_log :: "vhost_dev \<Rightarrow> vhost_dev \<Rightarrow> bool" where
  "only_log dev dev' \<longleftrightarrow> (\<exists>lg. dev' = dev\<lparr>log := lg\<rparr> \<and> length lg = length (log dev))"

definition only_dirty :: "world \<Rightarrow> world \<Rightarrow> bool" where
  "only_dirty w w' \<longleftrightarrow> (\<exists>d. w' = w\<lparr>dirty := d\<rparr>)"

definition two_chunk_dev :: vhost_dev where
  "two_chunk_dev =
     \<lparr>mem = [\<lparr>guest_phys_addr = 0, memory_size = 0x80000, userspace_addr = 0x70000000\<rparr>],
      mem_sections = [], vqs = [], acked_features = 0, started = True, log_enabled = True,
      log = [0, 1], log_size = 2\<rparr>"

definition ram_section :: memory_region_section where
  "ram_section =
     \<lparr>offset_within_address_space = 0, section_size = 0x80000, offset_within_region = 0,
      mr_logging = False, mr_ram_ptr = 0x70000000\<rparr>"

definition quiet_world :: world where
  "quiet_world = \<lparr>trace = [], accel_features = 0, accel_vring_log = [], dirty = []\<rparr>"

definition no_errors :: env where
  "no_errors = \<lparr>ioctl_errno = (\<lambda>n. 0), phys_map = (\<lambda>a l. (0, l))\<rparr>"

text \<open>The no-change tests of \<^verbatim>\<open>vhost_set_memory\<close> (lines 384 to 395): on an add, the region
  exists with the same address; on a remove, no region overlaps the range.\<close>

definition set_memory_no_change :: "vhost_dev \<Rightarrow> memory_region_section \<Rightarrow> bool \<Rightarrow> bool" where
  "set_memory_no_change dev section add0 =
     (let start_addr = offset_within_address_space section;
          len = section_size section;
          add = (if mr_logging section then False else add0);
          ram = mr_ram_ptr section + offset_within_region section
      in if add then \<not> vhost_dev_cmp_memory (mem dev) start_addr len ram
         else vhost_dev_find_reg (mem dev) start_addr len = None)"

text \<open>
  A running device that logs, with one page of RAM at guest address \<open>0\<close> in its table
  and a log of one word, at the moment \<^verbatim>\<open>vhost_region_add\<close> has tracked a second section
  (one page at guest address \<open>0x10000000\<close>) and calls \<^verbatim>\<open>vhost_set_memory\<close>; and the same
  device once that section is in the table.
\<close>

definition low_section :: memory_region_section where
  "low_section =
     \<lparr>offset_within_address_space = 0, section_size = 0x1000, offset_within_region = 0,
      mr_logging = False, mr_ram_ptr = 0x70000000\<rparr>"

definition high_section :: memory_region_section where
  "high_section =
     \<lparr>offset_within_address_space = 0x10000000, section_size = 0x1000,
      offset_within_region = 0, mr_logging = False, mr_ram_ptr = 0x78000000\<rparr>"

definition low_region :: vhost_memory_region where
  "low_region = \<lparr>guest_phys_addr = 0, memory_size = 0x1000, userspace_addr = 0x70000000\<rparr>"

definition high_region :: vhost_memory_region where
  "high_region =
     \<lparr>guest_phys_addr = 0x10000000, memory_size = 0x1000, userspace_addr = 0x78000000\<rparr>"

definition one_region_dev :: vhost_dev where
  "one_region_dev =
     \<lparr>mem = [low_region], mem_sections = [low_section, high_section], vqs = [],
      acked_features = 0, started = True, log_enabled = True, log = [0], log_size = 1\<rparr>"

definition two_region_dev :: vhost_dev where
  "two_region_dev =
     one_region_dev\<lparr>mem := [low_region, high_region], log := replicate 1537 0,
                    log_size := 1537\<rparr>"

definition merged_table :: "vhost_memory_region list" where
  "merged_table =
     [\<lparr>guest_phys_addr = 0, memory_size = 0x4000, userspace_addr = 0x80000000\<rparr>,
      \<lparr>guest_phys_addr = 0x5000, memory_size = 0xB000, userspace_addr = 0x80005000\<rparr>,
      \<lparr>guest_phys_addr = 0x4000, memory_size = 0x1000, userspace_addr = 0x90000000\<rparr>]"

definition log_features :: "vhost_consts \<Rightarrow> vhost_dev \<Rightarrow> bool \<Rightarrow> u64" where
  "log_features k dev b =
     (if b then acked_features dev OR push_bit (F_LOG_ALL k) 1 else acked_features dev)"

definition two_queue_dev :: vhost_dev where
  "two_queue_dev =
     \<lparr>mem = [\<lparr>guest_phys_addr = 0, memory_size = 0x80000, userspace_addr = 0x70000000\<rparr>],
      mem_sections = [],
      vqs = [\<lparr>used_phys = 0x1000, used_size = 0x100, ring_phys = 0x2000, ring_size = 0x1000,
               ring = 0x70002000\<rparr>,
             \<lparr>used_phys = 0x5000, used_size = 0x100, ring_phys = 0x6000, ring_size = 0x1000,
               ring = 0x70006000\<rparr>],
      acked_features = 1, started = True, log_enabled = False, log = [], log_size = 0\<rparr>"

definition two_queue_logged :: vhost_dev where
  "two_queue_logged = two_queue_dev\<lparr>log_enabled := True, log := [0, 0], log_size := 2\<rparr>"

text \<open>The kind of a command, to compare command orders.\<close>

datatype cmd_kind = LogBase | MemTable | Features | VringAddr

fun kind_of :: "ctl_cmd \<Rightarrow> cmd_kind" where
  "kind_of (SET_LOG_BASE n) = LogBase"
| "kind_of (SET_MEM_TABLE t) = MemTable"
| "kind_of (SET_FEATURES f) = Features"
| "kind_of (SET_VRING_ADDR i b) = VringAddr"

text \<open>The commands a call of \<^verbatim>\<open>vhost_migration_log\<close> has left in the trace.\<close>

definition migration_trace :: "fault + vhost_dev \<times> world \<times> int \<Rightarrow> ctl_cmd list" where
  "migration_trace res = (case res of Inl f \<Rightarrow> [] | Inr (dev, w, r) \<Rightarrow> trace w)"

text \<open>An accelerator that rejects the command at position \<open>m\<close> of the trace with
  \<^verbatim>\<open>errno\<close> 5 and accepts every other one.\<close>

definition fail_at :: "nat \<Rightarrow> env" where
  "fail_at m = \<lparr>ioctl_errno = (\<lambda>n. if n = m then 5 else 0), phys_map = (\<lambda>a l. (0, l))\<rparr>"

text \<open>The accelerator as \<open>two_queue_dev\<close> has configured it: no log bit, no queue logged.\<close>

definition two_queue_world :: world where
  "two_queue_world =
     \<lparr>trace = [], accel_features = 1, accel_vring_log = [False, False], dirty = []\<rparr>"

text \<open>What \<open>vhost_dev_set_log\<close> has returned and left in the accelerator.\<close>

definition set_log_view ::
  "fault + world \<times> int \<Rightarrow> fault + int \<times> u64 \<times> bool list \<times> ctl_cmd list" where
  "set_log_view res =
     (case res of Inl f \<Rightarrow> Inl f
      | Inr (w, r) \<Rightarrow> Inr (r, accel_features w, accel_vring_log w, trace w))"

lemma unassign_step_pieces:
  assumes "unassign_step s l n st reg = Some st'"
    and "split st = 0 \<longrightarrow> reg_n st = None"
  shows "mset (unassign_table st') = mset (unassign_table st) + mset (unassign_pieces s l reg)"
    and "split st' = 0 \<longrightarrow> reg_n st' = None"
  using assms
  by (auto simp: unassign_step_def unassign_pieces_def unassign_table_def Let_def
      split: if_splits option.splits)

lemma unassign_loop_pieces:
  "unassign_loop s l n st regs = Some st' \<Longrightarrow> (split st = 0 \<longrightarrow> reg_n st = None) \<Longrightarrow>
   mset (unassign_table st') =
     mset (unassign_table st) + mset (concat (map (unassign_pieces s l) regs))"
proof (induction regs arbitrary: st)
  case Nil
  then show ?case by simp
next
  case (Cons reg regs)
  from Cons.prems(1) obtain st1 where
    s1: "unassign_step s l n st reg = Some st1" and l1: "unassign_loop s l n st1 regs = Some st'"
    by (auto split: option.splits)
  from unassign_step_pieces[OF s1 Cons.prems(2)] Cons.IH[OF l1]
  show ?case by simp
qed

lemma unassign_mset:
  "vhost_dev_unassign_memory rt s l = Some rt' \<Longrightarrow>
   mset rt' = mset (concat (map (unassign_pieces s l) rt))"
  unfolding vhost_dev_unassign_memory_def
  by (auto dest!: unassign_loop_pieces simp: unassign_init_def unassign_table_def)

lemma range_get_last_alt: "range_get_last s l = s + (l - 1)"
  by (simp add: range_get_last_def)

lemma range_ok_nat:
  assumes "range_ok s l"
  shows "0 < unat l" and "unat (range_get_last s l) = unat s + unat l - 1"
    and "unat s + unat l \<le> 2 ^ 64"
proof -
  from assms have l0: "l \<noteq> 0" and le: "s \<le> s + (l - 1)"
    by (simp_all add: range_ok_def range_get_last_alt)
  from l0 show pos: "0 < unat l" by (simp add: unat_gt_0)
  from l0 have m1: "unat (l - 1) = unat l - 1" by (rule unat_minus_one)
  from le have "unat s + unat (l - 1) < 2 ^ LENGTH(64)"
    by (simp only: no_olen_add_nat)
  then have lt: "unat s + unat (l - 1) < 2 ^ 64" by simp
  then have "unat (s + (l - 1)) = unat s + unat (l - 1)"
    using unat_add_lem[of s "l - 1"] by simp
  with m1 pos show "unat (range_get_last s l) = unat s + unat l - 1"
    by (simp add: range_get_last_alt)
  from lt m1 pos show "unat s + unat l \<le> 2 ^ 64" by linarith
qed

lemma range_okI:
  assumes "0 < unat l" "unat s + unat l \<le> 2 ^ 64"
  shows "range_ok s l"
proof -
  from assms(1) have l0: "l \<noteq> 0" by (simp add: unat_gt_0)
  then have m1: "unat (l - 1) = unat l - 1" by (rule unat_minus_one)
  with assms have "unat s + unat (l - 1) < 2 ^ LENGTH(64)" by simp
  then have "s \<le> s + (l - 1)" by (simp only: no_olen_add_nat)
  with l0 show ?thesis by (simp add: range_ok_def range_get_last_alt)
qed

lemma ranges_overlap_nat:
  assumes "range_ok a la" "range_ok b lb"
  shows "ranges_overlap a la b lb \<longleftrightarrow> unat a < unat b + unat lb \<and> unat b < unat a + unat la"
proof -
  note A = range_ok_nat[OF assms(1)] and B = range_ok_nat[OF assms(2)]
  have "ranges_overlap a la b lb \<longleftrightarrow>
        \<not> (unat b + unat lb - 1 < unat a \<or> unat a + unat la - 1 < unat b)"
    by (simp only: ranges_overlap_def Let_def word_less_nat_alt A(2) B(2))
  with A(1) B(1) show ?thesis by linarith
qed

lemma unassign_pieces_alt:
  "unassign_pieces s l r =
    (if \<not> ranges_overlap (guest_phys_addr r) (memory_size r) s l then [r]
     else if s \<le> guest_phys_addr r \<and>
             range_get_last (guest_phys_addr r) (memory_size r) \<le> range_get_last s l then []
     else if range_get_last (guest_phys_addr r) (memory_size r) \<le> range_get_last s l
     then [low_part s r]
     else if s \<le> guest_phys_addr r then [high_part s l r]
     else [low_part s r, high_part s l r])"
  by (simp add: unassign_pieces_def low_part_def high_part_def Let_def)

lemma low_part_nat:
  assumes "gpa_ok r" and "\<not> s \<le> guest_phys_addr r"
  shows "reg_lo (low_part s r) = reg_lo r" and "reg_hi (low_part s r) = unat s"
    and "gpa_ok (low_part s r)"
proof -
  from assms(2) have lt: "unat (guest_phys_addr r) < unat s"
    by (simp add: word_le_nat_alt)
  then have "guest_phys_addr r \<le> s" by (simp add: word_le_nat_alt)
  then have sub: "unat (s - guest_phys_addr r) = unat s - unat (guest_phys_addr r)"
    by (rule unat_sub)
  show "reg_lo (low_part s r) = reg_lo r" by (simp add: reg_lo_def low_part_def)
  from sub lt show "reg_hi (low_part s r) = unat s" by (simp add: reg_hi_def low_part_def)
  have "unat s < 2 ^ LENGTH(64)" by (rule unsigned_less)
  then have "unat s \<le> 2 ^ 64" by simp
  with sub lt have "range_ok (guest_phys_addr r) (s - guest_phys_addr r)"
    by (intro range_okI) simp_all
  then show "gpa_ok (low_part s r)" by (simp add: gpa_ok_def low_part_def)
qed

lemma high_part_nat:
  assumes "range_ok s l" and "gpa_ok r"
    and ov: "ranges_overlap (guest_phys_addr r) (memory_size r) s l"
    and "\<not> range_get_last (guest_phys_addr r) (memory_size r) \<le> range_get_last s l"
  shows "reg_lo (high_part s l r) = unat s + unat l" and "reg_hi (high_part s l r) = reg_hi r"
    and "gpa_ok (high_part s l r)"
proof -
  let ?g = "guest_phys_addr r" and ?m = "memory_size r"
  let ?c = "range_get_last s l + 1 - ?g"
  from assms(2) have rk: "range_ok ?g ?m" by (simp add: gpa_ok_def)
  note S = range_ok_nat[OF assms(1)] and R = range_ok_nat[OF rk]
  from ov have ovn: "unat ?g < unat s + unat l" "unat s < unat ?g + unat ?m"
    by (simp_all add: ranges_overlap_nat[OF rk assms(1)])
  from assms(4) have "unat s + unat l - 1 < unat ?g + unat ?m - 1"
    by (simp add: word_le_nat_alt S(2) R(2))
  with S(1) R(1) have lt: "unat s + unat l < unat ?g + unat ?m" by linarith
  with R(3) have e64: "unat s + unat l < 2 ^ 64" by linarith
  have "unat (range_get_last s l) + unat (1::u64) < 2 ^ LENGTH(64)"
    using e64 S(1) by (simp add: S(2))
  then have "unat (range_get_last s l + 1) = unat (range_get_last s l) + unat (1::u64)"
    by (simp only: unat_add_lem)
  with S(1) have e: "unat (range_get_last s l + 1) = unat s + unat l" by (simp add: S(2))
  with ovn(1) have "?g \<le> range_get_last s l + 1" by (simp add: word_le_nat_alt)
  then have "unat ?c = unat (range_get_last s l + 1) - unat ?g" by (rule unat_sub)
  with e have c: "unat ?c = unat s + unat l - unat ?g" by simp
  with ovn(1) e64 have "unat ?g + unat ?c < 2 ^ LENGTH(64)" by simp
  then have "unat (?g + ?c) = unat ?g + unat ?c" by (simp only: unat_add_lem)
  with c ovn(1) have g': "unat (?g + ?c) = unat s + unat l" by simp
  from c lt have "unat ?c \<le> unat ?m" by linarith
  then have "?c \<le> ?m" by (simp add: word_le_nat_alt)
  then have "unat (?m - ?c) = unat ?m - unat ?c" by (rule unat_sub)
  with c have m': "unat (?m - ?c) = unat ?m - (unat s + unat l - unat ?g)" by simp
  show lo: "reg_lo (high_part s l r) = unat s + unat l"
    using g' by (simp add: reg_lo_def high_part_def Let_def)
  show hi: "reg_hi (high_part s l r) = reg_hi r"
    using g' m' lt ovn(1) by (simp add: reg_hi_def high_part_def Let_def)
  have "range_ok (?g + ?c) (?m - ?c)"
    using g' m' lt ovn(1) R(3) by (intro range_okI) simp_all
  then show "gpa_ok (high_part s l r)" by (simp add: gpa_ok_def high_part_def Let_def)
qed

lemma part_offset:
  "userspace_addr (low_part s r) - guest_phys_addr (low_part s r) =
     userspace_addr r - guest_phys_addr r"
  "userspace_addr (high_part s l r) - guest_phys_addr (high_part s l r) =
     userspace_addr r - guest_phys_addr r"
  by (simp_all add: low_part_def high_part_def Let_def)

lemma gpa_ok_lo_hi: "gpa_ok r \<Longrightarrow> reg_lo r < reg_hi r \<and> reg_hi r \<le> 2 ^ 64"
  using range_ok_nat[of "guest_phys_addr r" "memory_size r"]
  by (simp add: gpa_ok_def reg_lo_def reg_hi_def)

lemma overlap_lo_hi:
  "gpa_ok r \<Longrightarrow> range_ok s l \<Longrightarrow>
   ranges_overlap (guest_phys_addr r) (memory_size r) s l \<longleftrightarrow>
     reg_lo r < unat s + unat l \<and> unat s < reg_hi r"
  by (simp add: gpa_ok_def ranges_overlap_nat reg_lo_def reg_hi_def)

lemma unassign_pieces_piece_of:
  assumes s: "range_ok s l" and r: "gpa_ok r" and p: "p \<in> set (unassign_pieces s l r)"
  shows "piece_of s l r p"
proof (cases "ranges_overlap (guest_phys_addr r) (memory_size r) s l")
  case False
  with p have "p = r" by (simp add: unassign_pieces_alt)
  moreover from False have "reg_hi r \<le> unat s \<or> unat s + unat l \<le> reg_lo r"
    using overlap_lo_hi[OF r s] by linarith
  ultimately show ?thesis using r by (auto simp: piece_of_def)
next
  case True
  from p True consider
      (low) "p = low_part s r" "\<not> s \<le> guest_phys_addr r"
    | (high) "p = high_part s l r"
        "\<not> range_get_last (guest_phys_addr r) (memory_size r) \<le> range_get_last s l"
    by (auto simp: unassign_pieces_alt split: if_splits)
  then show ?thesis
  proof cases
    case low
    from True have "unat s < reg_hi r" using overlap_lo_hi[OF r s] by simp
    with low_part_nat[OF r low(2)] low(1) show ?thesis
      by (simp add: piece_of_def part_offset)
  next
    case high
    from True have "reg_lo r < unat s + unat l" using overlap_lo_hi[OF r s] by simp
    with high_part_nat[OF s r True high(2)] high(1) show ?thesis
      by (simp add: piece_of_def part_offset)
  qed
qed

lemma unassign_pieces_distinct:
  assumes s: "range_ok s l" and r: "gpa_ok r"
  shows "distinct (unassign_pieces s l r)"
proof -
  have "low_part s r \<noteq> high_part s l r"
    if "\<not> s \<le> guest_phys_addr r"
      "\<not> range_get_last (guest_phys_addr r) (memory_size r) \<le> range_get_last s l"
      "ranges_overlap (guest_phys_addr r) (memory_size r) s l"
  proof
    assume eq: "low_part s r = high_part s l r"
    from low_part_nat(1)[OF r that(1)] high_part_nat(1)[OF s r that(3) that(2)] eq
    have "reg_lo r = unat s + unat l" by simp
    moreover from that(1) have "reg_lo r < unat s" by (simp add: word_le_nat_alt reg_lo_def)
    ultimately show False by simp
  qed
  then show ?thesis by (auto simp: unassign_pieces_alt)
qed

lemma regions_overlap_nat:
  "gpa_ok a \<Longrightarrow> gpa_ok b \<Longrightarrow>
   regions_overlap a b \<longleftrightarrow> reg_lo a < reg_hi b \<and> reg_lo b < reg_hi a"
  by (simp add: regions_overlap_def gpa_ok_def ranges_overlap_nat reg_lo_def reg_hi_def)

lemma piece_of_sub:
  "piece_of s l r p \<Longrightarrow> gpa_ok p \<and> reg_lo r \<le> reg_lo p \<and> reg_hi p \<le> reg_hi r"
  by (simp add: piece_of_def)

lemma piece_of_avoids:
  "piece_of s l r p \<Longrightarrow> reg_hi p \<le> unat s \<or> unat s + unat l \<le> reg_lo p"
  by (auto simp: piece_of_def)

lemma pieces_same_region:
  assumes s: "range_ok s l" and r: "gpa_ok r"
    and p: "p \<in> set (unassign_pieces s l r)" and q: "q \<in> set (unassign_pieces s l r)"
    and ne: "p \<noteq> q"
  shows "reg_hi p = unat s \<and> reg_lo q = unat s + unat l \<and> reg_lo p = reg_lo r \<and> reg_hi q = reg_hi r \<or>
         reg_hi q = unat s \<and> reg_lo p = unat s + unat l \<and> reg_lo q = reg_lo r \<and> reg_hi p = reg_hi r"
proof -
  from p q ne have c: "ranges_overlap (guest_phys_addr r) (memory_size r) s l"
    "\<not> s \<le> guest_phys_addr r"
    "\<not> range_get_last (guest_phys_addr r) (memory_size r) \<le> range_get_last s l"
    and pq: "p = low_part s r \<and> q = high_part s l r \<or> q = low_part s r \<and> p = high_part s l r"
    by (auto simp: unassign_pieces_alt split: if_splits)
  from low_part_nat[OF r c(2)] high_part_nat[OF s r c(1) c(3)] pq
  show ?thesis by auto
qed

lemma distinct_concat_map:
  assumes "distinct xs" and "\<And>x. x \<in> set xs \<Longrightarrow> distinct (f x)"
    and "\<And>x y. x \<in> set xs \<Longrightarrow> y \<in> set xs \<Longrightarrow> x \<noteq> y \<Longrightarrow> set (f x) \<inter> set (f y) = {}"
  shows "distinct (concat (map f xs))"
  using assms
proof (induction xs)
  case Nil
  then show ?case by simp
next
  case (Cons x xs)
  have "distinct (concat (map f xs))"
    by (rule Cons.IH) (use Cons.prems in auto)
  moreover have "distinct (f x)" using Cons.prems(2) by simp
  moreover have "set (f x) \<inter> set (f y) = {}" if "y \<in> set xs" for y
    using Cons.prems(1) Cons.prems(3)[of x y] that by auto
  ultimately show ?case by auto
qed

lemma unassign_pieces_table_inv:
  assumes inv: "table_inv rt" and s: "range_ok s l"
  shows "table_inv (concat (map (unassign_pieces s l) rt))"
proof -
  let ?f = "unassign_pieces s l"
  from inv have d: "distinct rt" and ok: "\<And>r. r \<in> set rt \<Longrightarrow> gpa_ok r"
    and dj: "\<And>a b. a \<in> set rt \<Longrightarrow> b \<in> set rt \<Longrightarrow> a \<noteq> b \<Longrightarrow> \<not> regions_overlap a b"
    by (auto simp: table_inv_def)
  have po: "piece_of s l r p" if "r \<in> set rt" "p \<in> set (?f r)" for r p
    using unassign_pieces_piece_of[OF s ok[OF that(1)] that(2)] .
  have apart: "\<not> regions_overlap p q \<and> p \<noteq> q"
    if "a \<in> set rt" "b \<in> set rt" "a \<noteq> b" "p \<in> set (?f a)" "q \<in> set (?f b)" for a b p q
  proof -
    from dj[OF that(1,2,3)] have "reg_hi a \<le> reg_lo b \<or> reg_hi b \<le> reg_lo a"
      using regions_overlap_nat[OF ok[OF that(1)] ok[OF that(2)]] by linarith
    moreover note P = piece_of_sub[OF po[OF that(1,4)]] and Q = piece_of_sub[OF po[OF that(2,5)]]
    moreover from P Q have "reg_lo p < reg_hi p" "reg_lo q < reg_hi q"
      using gpa_ok_lo_hi by blast+
    ultimately have "reg_hi p \<le> reg_lo q \<or> reg_hi q \<le> reg_lo p" "reg_lo p < reg_hi p"
      by linarith+
    then have "\<not> regions_overlap p q" "p \<noteq> q"
      using regions_overlap_nat[of p q] P Q by auto
    then show ?thesis by simp
  qed
  have same: "\<not> regions_overlap p q"
    if "a \<in> set rt" "p \<in> set (?f a)" "q \<in> set (?f a)" "p \<noteq> q" for a p q
  proof -
    note P = piece_of_sub[OF po[OF that(1,2)]] and Q = piece_of_sub[OF po[OF that(1,3)]]
    from range_ok_nat(1)[OF s] pieces_same_region[OF s ok[OF that(1)] that(2,3,4)]
    have "reg_hi p \<le> reg_lo q \<or> reg_hi q \<le> reg_lo p" by linarith
    then show ?thesis using regions_overlap_nat[of p q] P Q by auto
  qed
  have "distinct (concat (map ?f rt))"
  proof (rule distinct_concat_map[OF d])
    show "distinct (?f x)" if "x \<in> set rt" for x
      using unassign_pieces_distinct[OF s ok[OF that]] .
    show "set (?f x) \<inter> set (?f y) = {}" if "x \<in> set rt" "y \<in> set rt" "x \<noteq> y" for x y
      using apart[OF that] by blast
  qed
  moreover have "\<forall>p\<in>set (concat (map ?f rt)). gpa_ok p"
  proof
    fix p assume "p \<in> set (concat (map ?f rt))"
    then obtain r where "r \<in> set rt" "p \<in> set (?f r)" by auto
    from piece_of_sub[OF po[OF this]] show "gpa_ok p" by simp
  qed
  moreover have "\<not> regions_overlap p q"
    if "p \<in> set (concat (map ?f rt))" "q \<in> set (concat (map ?f rt))" "p \<noteq> q" for p q
  proof -
    from that obtain a b where ab: "a \<in> set rt" "b \<in> set rt" "p \<in> set (?f a)" "q \<in> set (?f b)"
      by auto
    show ?thesis
    proof (cases "a = b")
      case True
      with same[OF ab(1,3) _ that(3)] ab(4) show ?thesis by simp
    next
      case False
      with apart[OF ab(1,2) _ ab(3,4)] show ?thesis by simp
    qed
  qed
  ultimately show ?thesis unfolding table_inv_def by blast
qed

lemma table_inv_mset:
  "mset xs = mset ys \<Longrightarrow> table_inv xs \<longleftrightarrow> table_inv ys"
proof -
  assume eq: "mset xs = mset ys"
  then have "set xs = set ys" by (rule mset_eq_setD)
  moreover from eq have "distinct xs \<longleftrightarrow> distinct ys" by (rule mset_eq_imp_distinct_iff)
  ultimately show ?thesis by (simp add: table_inv_def)
qed

lemma unassign_table_inv:
  assumes "table_inv rt" "range_ok s l" "vhost_dev_unassign_memory rt s l = Some rt'"
  shows "table_inv rt'"
  using unassign_pieces_table_inv[OF assms(1,2)] table_inv_mset[OF unassign_mset[OF assms(3)]]
  by simp

lemma unassign_clears:
  assumes "\<forall>r\<in>set rt. gpa_ok r" "range_ok s l" "vhost_dev_unassign_memory rt s l = Some rt'"
    and "p \<in> set rt'"
  shows "gpa_ok p" and "\<not> ranges_overlap (guest_phys_addr p) (memory_size p) s l"
proof -
  from unassign_mset[OF assms(3)] have "set rt' = set (concat (map (unassign_pieces s l) rt))"
    by (rule mset_eq_setD)
  with assms(4) obtain r where r: "r \<in> set rt" "p \<in> set (unassign_pieces s l r)" by auto
  from unassign_pieces_piece_of[OF assms(2) _ r(2)] assms(1) r(1)
  have po: "piece_of s l r p" by simp
  from piece_of_sub[OF po] show ok: "gpa_ok p" by simp
  from piece_of_avoids[OF po] show "\<not> ranges_overlap (guest_phys_addr p) (memory_size p) s l"
    using overlap_lo_hi[OF ok assms(2)] by linarith
qed

lemma adjacent_alt:
  "adjacent a b \<longleftrightarrow>
     guest_phys_addr a + memory_size a = guest_phys_addr b \<and>
     userspace_addr a + memory_size a = userspace_addr b"
  by (simp add: adjacent_def range_get_last_def)

lemma hva_ok_nat: "hva_ok r \<longleftrightarrow> unat (userspace_addr r) + unat (memory_size r) < 2 ^ 64"
  by (simp add: hva_ok_def no_olen_add_nat)

lemma word_end_cases:
  fixes g m :: u64
  assumes "unat g + unat m \<le> 2 ^ 64"
  shows "unat (g + m) = unat g + unat m \<or> (unat g + unat m = 2 ^ 64 \<and> g + m = 0)"
proof (cases "unat g + unat m < 2 ^ 64")
  case True
  then have "unat g + unat m < 2 ^ LENGTH(64)" by simp
  then have "unat (g + m) = unat g + unat m" by (simp only: unat_add_lem)
  then show ?thesis by simp
next
  case False
  with assms have e: "unat g + unat m = 2 ^ 64" by simp
  have "unat (g + m) = (unat g + unat m) mod 2 ^ LENGTH(64)" by (rule unat_word_ariths)
  with e have "unat (g + m) = 0" by simp
  then have "g + m = 0" by (simp add: unat_eq_0)
  with e show ?thesis by simp
qed

lemma word_end_eq:
  fixes g m g' m' :: u64
  shows "unat g + unat m = unat g' + unat m' \<Longrightarrow> g + m = g' + m'"
proof -
  assume "unat g + unat m = unat g' + unat m'"
  then have "(of_nat (unat g + unat m) :: u64) = of_nat (unat g' + unat m')" by simp
  then show ?thesis by simp
qed

lemma gpa_ok_size_lt: "reg_hi r - reg_lo r < 2 ^ 64"
proof -
  have "unat (memory_size r) < 2 ^ LENGTH(64)" by (rule unsigned_less)
  then show ?thesis by (simp add: reg_hi_def reg_lo_def)
qed

lemma adjacent_gpa_nat:
  assumes "gpa_ok a" "adjacent a b"
  shows "reg_hi a = reg_lo b \<or> (reg_hi a = 2 ^ 64 \<and> reg_lo b = 0)"
proof -
  from assms(2) have eq: "guest_phys_addr a + memory_size a = guest_phys_addr b"
    by (simp add: adjacent_alt)
  from gpa_ok_lo_hi[OF assms(1)] have "unat (guest_phys_addr a) + unat (memory_size a) \<le> 2 ^ 64"
    by (simp add: reg_hi_def)
  from word_end_cases[OF this] eq show ?thesis
    by (auto simp: reg_hi_def reg_lo_def)
qed

lemma piece_of_adjacent:
  assumes pa: "piece_of s l a p" and pb: "piece_of s l b q"
    and a: "gpa_ok a" and b: "gpa_ok b"
    and dj: "reg_hi a \<le> reg_lo b \<or> reg_hi b \<le> reg_lo a"
    and adj: "adjacent p q"
  shows "adjacent a b"
proof -
  note P = piece_of_sub[OF pa] and Q = piece_of_sub[OF pb]
  from P Q have pq: "reg_lo p < reg_hi p" "reg_lo q < reg_hi q" "reg_hi p \<le> 2 ^ 64"
    using gpa_ok_lo_hi by blast+
  from gpa_ok_lo_hi[OF a] gpa_ok_lo_hi[OF b]
  have ab: "reg_lo a < reg_hi a" "reg_lo b < reg_hi b" "reg_hi a \<le> 2 ^ 64" by simp_all
  from adjacent_gpa_nat[OF _ adj] P
  have "reg_hi p = reg_lo q \<or> (reg_hi p = 2 ^ 64 \<and> reg_lo q = 0)" by simp
  with P Q pq ab dj have ends: "reg_hi p = reg_hi a" "reg_lo q = reg_lo b" by linarith+
  from ends(1) have e1: "guest_phys_addr p + memory_size p = guest_phys_addr a + memory_size a"
    by (intro word_end_eq) (simp add: reg_hi_def)
  from ends(2) have e2: "guest_phys_addr q = guest_phys_addr b"
    by (simp add: reg_lo_def word_unat_eq_iff)
  from pa have o1: "userspace_addr p - guest_phys_addr p = userspace_addr a - guest_phys_addr a"
    by (simp add: piece_of_def)
  from pb have o2: "userspace_addr q - guest_phys_addr q = userspace_addr b - guest_phys_addr b"
    by (simp add: piece_of_def)
  from adj have g: "guest_phys_addr p + memory_size p = guest_phys_addr q"
    and h: "userspace_addr p + memory_size p = userspace_addr q"
    by (simp_all add: adjacent_alt)
  from e1 g e2 have G: "guest_phys_addr a + memory_size a = guest_phys_addr b" by simp
  have "userspace_addr a + memory_size a =
        (userspace_addr a - guest_phys_addr a) + (guest_phys_addr a + memory_size a)" by simp
  also have "\<dots> = (userspace_addr p - guest_phys_addr p) + (guest_phys_addr p + memory_size p)"
    by (simp only: o1 e1)
  also have "\<dots> = userspace_addr q" using h by simp
  also have "\<dots> = userspace_addr b" using o2 e2 by simp
  finally show ?thesis using G by (simp add: adjacent_alt)
qed

lemma not_self_adjacent_nat:
  assumes "gpa_ok p" "adjacent p q"
  shows "\<not> (reg_lo q = reg_lo p)"
proof
  assume eq: "reg_lo q = reg_lo p"
  from adjacent_gpa_nat[OF assms] gpa_ok_lo_hi[OF assms(1)] gpa_ok_size_lt[of p] eq
  show False by linarith
qed

lemma unassign_pieces_merge_maximal:
  assumes inv: "table_inv rt" and mm: "merge_maximal rt" and s: "range_ok s l"
  shows "merge_maximal (concat (map (unassign_pieces s l) rt))"
  unfolding merge_maximal_def
proof (intro ballI notI)
  fix p q
  let ?f = "unassign_pieces s l"
  assume "p \<in> set (concat (map ?f rt))" "q \<in> set (concat (map ?f rt))" and adj: "adjacent p q"
  then obtain a b where ab: "a \<in> set rt" "b \<in> set rt" "p \<in> set (?f a)" "q \<in> set (?f b)"
    by auto
  from inv ab have ok: "gpa_ok a" "gpa_ok b" by (auto simp: table_inv_def)
  note pa = unassign_pieces_piece_of[OF s ok(1) ab(3)]
  note pb = unassign_pieces_piece_of[OF s ok(2) ab(4)]
  note P = piece_of_sub[OF pa] and Q = piece_of_sub[OF pb]
  show False
  proof (cases "a = b")
    case False
    with inv ab have "\<not> regions_overlap a b" by (auto simp: table_inv_def)
    then have "reg_hi a \<le> reg_lo b \<or> reg_hi b \<le> reg_lo a"
      using regions_overlap_nat[OF ok] by linarith
    from piece_of_adjacent[OF pa pb ok this adj] mm ab show False
      by (auto simp: merge_maximal_def)
  next
    case True
    show False
    proof (cases "p = q")
      case True
      with not_self_adjacent_nat[OF _ adj] P show False by simp
    next
      case False
      from adjacent_gpa_nat[OF _ adj] P
      have c: "reg_hi p = reg_lo q \<or> (reg_hi p = 2 ^ 64 \<and> reg_lo q = 0)" by simp
      from P Q have pq: "reg_lo p < reg_hi p" "reg_lo q < reg_hi q"
        using gpa_ok_lo_hi by blast+
      from pieces_same_region[OF s ok(1) ab(3) _ False] ab(4) \<open>a = b\<close>
      have d: "reg_hi p = unat s \<and> reg_lo q = unat s + unat l \<and> reg_lo p = reg_lo a \<and> reg_hi q = reg_hi a \<or>
         reg_hi q = unat s \<and> reg_lo p = unat s + unat l \<and> reg_lo q = reg_lo a \<and> reg_hi p = reg_hi a"
        by simp
      from c d pq range_ok_nat(1)[OF s] gpa_ok_size_lt[of a] show False by linarith
    qed
  qed
qed

lemma piece_of_hva_ok:
  assumes pa: "piece_of s l r p" and r: "gpa_ok r" and h: "hva_ok r"
  shows "hva_ok p"
proof -
  note P = piece_of_sub[OF pa]
  let ?d = "guest_phys_addr p - guest_phys_addr r"
  from P have "guest_phys_addr r \<le> guest_phys_addr p" by (simp add: reg_lo_def word_le_nat_alt)
  then have "unat ?d = unat (guest_phys_addr p) - unat (guest_phys_addr r)" by (rule unat_sub)
  then have d: "unat ?d = reg_lo p - reg_lo r" by (simp add: reg_lo_def)
  from pa have "userspace_addr p - guest_phys_addr p = userspace_addr r - guest_phys_addr r"
    by (simp add: piece_of_def)
  then have eq: "userspace_addr p = userspace_addr r + ?d" by (simp add: algebra_simps)
  from h have hr: "unat (userspace_addr r) + (reg_hi r - reg_lo r) < 2 ^ 64"
    by (simp add: hva_ok_nat reg_hi_def reg_lo_def)
  from P gpa_ok_lo_hi[of p] have pq: "reg_lo p < reg_hi p" by simp
  with hr P d have "unat (userspace_addr r) + unat ?d < 2 ^ 64" by linarith
  then have "unat (userspace_addr r) + unat ?d < 2 ^ LENGTH(64)" by simp
  then have "unat (userspace_addr r + ?d) = unat (userspace_addr r) + unat ?d"
    by (simp only: unat_add_lem)
  with eq d have "unat (userspace_addr p) = unat (userspace_addr r) + (reg_lo p - reg_lo r)"
    by simp
  moreover have "unat (memory_size p) = reg_hi p - reg_lo p" by (simp add: reg_hi_def reg_lo_def)
  ultimately have "unat (userspace_addr p) + unat (memory_size p) < 2 ^ 64"
    using hr P pq by linarith
  then show ?thesis by (simp add: hva_ok_nat)
qed

lemma unassign_step_alt:
  "unassign_step s l n st reg =
    (if \<not> ranges_overlap (guest_phys_addr reg) (memory_size reg) s l
     then Some (st\<lparr>regs_to := regs_to st @ [reg]\<rparr>)
     else if split st \<noteq> 0 then None
     else if s \<le> guest_phys_addr reg \<and>
             range_get_last (guest_phys_addr reg) (memory_size reg) \<le> range_get_last s l
     then Some (st\<lparr>nregions := nregions st - 1, overlap_middle := overlap_middle st + 1\<rparr>)
     else if range_get_last (guest_phys_addr reg) (memory_size reg) \<le> range_get_last s l
     then
       if memory_size (low_part s reg) = 0 then None
       else if overlap_end st \<noteq> 0 then None
       else Some (st\<lparr>regs_to := regs_to st @ [low_part s reg],
                     overlap_end := overlap_end st + 1\<rparr>)
     else if s \<le> guest_phys_addr reg
     then
       if memory_size (high_part s l reg) = 0 then None
       else if overlap_start st \<noteq> 0 then None
       else Some (st\<lparr>regs_to := regs_to st @ [high_part s l reg],
                     overlap_start := overlap_start st + 1\<rparr>)
     else if overlap_start st \<noteq> 0 \<or> overlap_end st \<noteq> 0 \<or> overlap_middle st \<noteq> 0 then None
     else if memory_size (low_part s reg) = 0 then None
     else if memory_size (high_part s l reg) = 0 then None
     else if nregions st \<noteq> n then None
     else Some (st\<lparr>regs_to := regs_to st @ [low_part s reg],
                   reg_n := Some (high_part s l reg),
                   nregions := nregions st + 1,
                   split := split st + 1\<rparr>))"
  by (simp add: unassign_step_def low_part_def high_part_def Let_def)

lemma gpa_ok_size: "gpa_ok r \<Longrightarrow> memory_size r \<noteq> 0"
  by (simp add: gpa_ok_def range_ok_def)

lemma last_le_nat:
  assumes "gpa_ok r" "range_ok s l"
  shows "range_get_last (guest_phys_addr r) (memory_size r) \<le> range_get_last s l \<longleftrightarrow>
         reg_hi r \<le> unat s + unat l"
proof -
  from assms(1) have rk: "range_ok (guest_phys_addr r) (memory_size r)" by (simp add: gpa_ok_def)
  note R = range_ok_nat[OF rk] and S = range_ok_nat[OF assms(2)]
  have "range_get_last (guest_phys_addr r) (memory_size r) \<le> range_get_last s l \<longleftrightarrow>
        unat (guest_phys_addr r) + unat (memory_size r) - 1 \<le> unat s + unat l - 1"
    by (simp only: word_le_nat_alt R(2) S(2))
  with R(1) S(1) show ?thesis unfolding reg_hi_def by linarith
qed

lemma unassign_step_total:
  assumes inv: "table_inv (seen @ reg # rest)" and s: "range_ok s l"
    and c: "unassign_counters_ok s l n seen st"
  shows "\<exists>st'. unassign_step s l n st reg = Some st' \<and>
               unassign_counters_ok s l n (seen @ [reg]) st'"
proof -
  from inv have r: "gpa_ok reg" by (simp add: table_inv_def)
  note rl = gpa_ok_lo_hi[OF r]
  note sl = range_ok_nat(1)[OF s]
  have other: "reg_hi x \<le> reg_lo reg \<or> reg_hi reg \<le> reg_lo x" "reg_lo x < reg_hi x"
    if "x \<in> set seen" for x
  proof -
    from inv that have "x \<noteq> reg" "gpa_ok x" "\<not> regions_overlap x reg"
      by (auto simp: table_inv_def)
    then show "reg_hi x \<le> reg_lo reg \<or> reg_hi reg \<le> reg_lo x" "reg_lo x < reg_hi x"
      using regions_overlap_nat[OF _ r, of x] gpa_ok_lo_hi[of x] by auto
  qed
  show ?thesis
  proof (cases "ranges_overlap (guest_phys_addr reg) (memory_size reg) s l")
    case False
    then have "unassign_step s l n st reg = Some (st\<lparr>regs_to := regs_to st @ [reg]\<rparr>)"
      by (simp add: unassign_step_alt)
    moreover from c have "unassign_counters_ok s l n (seen @ [reg]) (st\<lparr>regs_to := regs_to st @ [reg]\<rparr>)"
      by (auto simp: unassign_counters_ok_def)
    ultimately show ?thesis by simp
  next
    case True
    then have ov: "reg_lo reg < unat s + unat l" "unat s < reg_hi reg"
      using overlap_lo_hi[OF r s] by simp_all
    have nosplit: "split st = 0"
    proof (rule ccontr)
      assume "split st \<noteq> 0"
      with c obtain x where "x \<in> set seen" "reg_lo x < unat s" "unat s + unat l < reg_hi x"
        by (auto simp: unassign_counters_ok_def)
      with other[of x] ov sl show False by linarith
    qed
    from c nosplit have nr: "nregions st = n - int (overlap_middle st)"
      by (simp add: unassign_counters_ok_def)
    have le: "s \<le> guest_phys_addr reg \<longleftrightarrow> unat s \<le> reg_lo reg"
      by (simp add: word_le_nat_alt reg_lo_def)
    note ll = last_le_nat[OF r s]
    consider (whole) "unat s \<le> reg_lo reg" "reg_hi reg \<le> unat s + unat l"
      | (tail) "reg_lo reg < unat s" "reg_hi reg \<le> unat s + unat l"
      | (head) "unat s \<le> reg_lo reg" "unat s + unat l < reg_hi reg"
      | (mid) "reg_lo reg < unat s" "unat s + unat l < reg_hi reg"
      by linarith
    then show ?thesis
    proof cases
      case whole
      with True nosplit have "unassign_step s l n st reg =
          Some (st\<lparr>nregions := nregions st - 1, overlap_middle := overlap_middle st + 1\<rparr>)"
        by (simp add: unassign_step_alt le ll)
      moreover from c whole nosplit have "unassign_counters_ok s l n (seen @ [reg])
          (st\<lparr>nregions := nregions st - 1, overlap_middle := overlap_middle st + 1\<rparr>)"
        by (auto simp: unassign_counters_ok_def)
      ultimately show ?thesis by simp
    next
      case tail
      then have nle: "\<not> s \<le> guest_phys_addr reg" by (simp add: le)
      from low_part_nat(3)[OF r nle] have lz: "memory_size (low_part s reg) \<noteq> 0"
        by (rule gpa_ok_size)
      have noend: "overlap_end st = 0"
      proof (rule ccontr)
        assume "overlap_end st \<noteq> 0"
        with c obtain x where "x \<in> set seen" "reg_lo x < unat s" "unat s < reg_hi x"
          by (auto simp: unassign_counters_ok_def)
        with other[of x] ov tail show False by linarith
      qed
      with True nosplit tail lz have "unassign_step s l n st reg =
          Some (st\<lparr>regs_to := regs_to st @ [low_part s reg], overlap_end := overlap_end st + 1\<rparr>)"
        by (simp add: unassign_step_alt le ll)
      moreover from c tail ov nosplit have "unassign_counters_ok s l n (seen @ [reg])
          (st\<lparr>regs_to := regs_to st @ [low_part s reg], overlap_end := overlap_end st + 1\<rparr>)"
        by (auto simp: unassign_counters_ok_def)
      ultimately show ?thesis by simp
    next
      case head
      then have nll: "\<not> range_get_last (guest_phys_addr reg) (memory_size reg) \<le> range_get_last s l"
        by (simp add: ll)
      from high_part_nat(3)[OF s r True nll] have hz: "memory_size (high_part s l reg) \<noteq> 0"
        by (rule gpa_ok_size)
      have nostart: "overlap_start st = 0"
      proof (rule ccontr)
        assume "overlap_start st \<noteq> 0"
        with c obtain x where "x \<in> set seen" "reg_lo x < unat s + unat l" "unat s + unat l < reg_hi x"
          by (auto simp: unassign_counters_ok_def)
        with other[of x] ov head show False by linarith
      qed
      with True nosplit head hz have "unassign_step s l n st reg =
          Some (st\<lparr>regs_to := regs_to st @ [high_part s l reg],
                   overlap_start := overlap_start st + 1\<rparr>)"
        by (simp add: unassign_step_alt le ll)
      moreover from c head ov nosplit have "unassign_counters_ok s l n (seen @ [reg])
          (st\<lparr>regs_to := regs_to st @ [high_part s l reg], overlap_start := overlap_start st + 1\<rparr>)"
        by (auto simp: unassign_counters_ok_def)
      ultimately show ?thesis by simp
    next
      case mid
      then have nle: "\<not> s \<le> guest_phys_addr reg"
        and nll: "\<not> range_get_last (guest_phys_addr reg) (memory_size reg) \<le> range_get_last s l"
        by (simp_all add: le ll)
      from low_part_nat(3)[OF r nle] have lz: "memory_size (low_part s reg) \<noteq> 0"
        by (rule gpa_ok_size)
      from high_part_nat(3)[OF s r True nll] have hz: "memory_size (high_part s l reg) \<noteq> 0"
        by (rule gpa_ok_size)
      have z1: "overlap_start st = 0"
      proof (rule ccontr)
        assume "overlap_start st \<noteq> 0"
        with c obtain x where "x \<in> set seen" "reg_lo x < unat s + unat l" "unat s + unat l < reg_hi x"
          by (auto simp: unassign_counters_ok_def)
        with other[of x] ov mid show False by linarith
      qed
      have z2: "overlap_end st = 0"
      proof (rule ccontr)
        assume "overlap_end st \<noteq> 0"
        with c obtain x where "x \<in> set seen" "reg_lo x < unat s" "unat s < reg_hi x"
          by (auto simp: unassign_counters_ok_def)
        with other[of x] ov mid show False by linarith
      qed
      have z3: "overlap_middle st = 0"
      proof (rule ccontr)
        assume "overlap_middle st \<noteq> 0"
        with c obtain x where "x \<in> set seen" "unat s \<le> reg_lo x" "reg_hi x \<le> unat s + unat l"
          by (auto simp: unassign_counters_ok_def)
        with other[of x] ov mid show False by linarith
      qed
      from nr z3 have nn: "nregions st = n" by simp
      with True nosplit nle nll lz hz z1 z2 z3 have "unassign_step s l n st reg =
          Some (st\<lparr>regs_to := regs_to st @ [low_part s reg], reg_n := Some (high_part s l reg),
                   nregions := nregions st + 1, split := split st + 1\<rparr>)"
        by (simp add: unassign_step_alt)
      moreover from c mid nosplit have "unassign_counters_ok s l n (seen @ [reg])
          (st\<lparr>regs_to := regs_to st @ [low_part s reg], reg_n := Some (high_part s l reg),
              nregions := nregions st + 1, split := split st + 1\<rparr>)"
        by (auto simp: unassign_counters_ok_def)
      ultimately show ?thesis by simp
    qed
  qed
qed

lemma unassign_loop_total:
  "table_inv (seen @ rest) \<Longrightarrow> range_ok s l \<Longrightarrow> unassign_counters_ok s l n seen st \<Longrightarrow>
   \<exists>st'. unassign_loop s l n st rest = Some st'"
proof (induction rest arbitrary: seen st)
  case Nil
  then show ?case by simp
next
  case (Cons reg rest)
  from unassign_step_total[OF Cons.prems] obtain st1 where
    st1: "unassign_step s l n st reg = Some st1" "unassign_counters_ok s l n (seen @ [reg]) st1"
    by blast
  from Cons.prems(1) have "table_inv ((seen @ [reg]) @ rest)" by simp
  from Cons.IH[OF this Cons.prems(2) st1(2)] st1(1) show ?case by simp
qed

lemma unassign_total:
  assumes "table_inv rt" "range_ok s l"
  shows "\<exists>rt'. vhost_dev_unassign_memory rt s l = Some rt'"
proof -
  have "unassign_counters_ok s l (int (length rt)) [] (unassign_init rt)"
    by (simp add: unassign_counters_ok_def unassign_init_def)
  from unassign_loop_total[of "[]" rt, OF _ assms(2) this] assms(1)
  show ?thesis by (auto simp: vhost_dev_unassign_memory_def)
qed

lemma unassign_loop_no_overlap:
  "\<forall>r\<in>set rest. \<not> ranges_overlap (guest_phys_addr r) (memory_size r) s l \<Longrightarrow>
   unassign_loop s l n st rest = Some (st\<lparr>regs_to := regs_to st @ rest\<rparr>)"
  by (induction rest arbitrary: st) (simp_all add: unassign_step_def)

lemma unassign_no_overlap:
  "\<forall>r\<in>set rt. \<not> ranges_overlap (guest_phys_addr r) (memory_size r) s l \<Longrightarrow>
   vhost_dev_unassign_memory rt s l = Some rt"
  by (simp add: vhost_dev_unassign_memory_def unassign_loop_no_overlap unassign_table_def
      unassign_init_def)

lemma assign_step_alt:
  "assign_step st reg =
    (if regions_overlap reg (cur_reg st) then None
     else if \<not> adjacent reg (cur_reg st) \<and> \<not> adjacent (cur_reg st) reg
     then Some (st\<lparr>regs_out := regs_out st @ [reg]\<rparr>)
     else
       let m = merge_reg (cur_reg st) reg in
       if memory_size m = 0 then None
       else
         (case merged st of
            Some i \<Rightarrow>
              Some (st\<lparr>regs_out := (regs_out st)[i := m],
                       cur_start := guest_phys_addr m, cur_size := memory_size m,
                       cur_uaddr := userspace_addr m\<rparr>)
          | None \<Rightarrow>
              Some (st\<lparr>regs_out := regs_out st @ [m],
                       merged := Some (length (regs_out st)),
                       cur_start := guest_phys_addr m, cur_size := memory_size m,
                       cur_uaddr := userspace_addr m\<rparr>)))"
  unfolding assign_step_def regions_overlap_def ranges_overlap_def adjacent_def cur_reg_def
    merge_reg_def Let_def
  by (auto split: option.splits)

lemma merge_reg_ordered:
  assumes a: "gpa_ok a" and b: "gpa_ok b" and le: "reg_hi a \<le> reg_lo b"
  shows "guest_phys_addr (merge_reg a b) = guest_phys_addr a"
    and "guest_phys_addr (merge_reg b a) = guest_phys_addr a"
    and "memory_size (merge_reg a b) =
           range_get_last (guest_phys_addr b) (memory_size b) - guest_phys_addr a + 1"
    and "memory_size (merge_reg b a) =
           range_get_last (guest_phys_addr b) (memory_size b) - guest_phys_addr a + 1"
proof -
  from a b have ak: "range_ok (guest_phys_addr a) (memory_size a)"
    and bk: "range_ok (guest_phys_addr b) (memory_size b)" by (simp_all add: gpa_ok_def)
  note A = range_ok_nat[OF ak] and B = range_ok_nat[OF bk]
  note al = gpa_ok_lo_hi[OF a] and bl = gpa_ok_lo_hi[OF b]
  from le al bl have "unat (guest_phys_addr a) < unat (guest_phys_addr b)"
    unfolding reg_lo_def reg_hi_def by linarith
  then have g: "guest_phys_addr a < guest_phys_addr b" by (simp add: word_less_nat_alt)
  from le al bl A(1) B(1)
  have "unat (guest_phys_addr a) + unat (memory_size a) - 1 <
        unat (guest_phys_addr b) + unat (memory_size b) - 1"
    unfolding reg_lo_def reg_hi_def by linarith
  then have e: "range_get_last (guest_phys_addr a) (memory_size a) <
                range_get_last (guest_phys_addr b) (memory_size b)"
    by (simp only: word_less_nat_alt A(2) B(2))
  from g have gl: "guest_phys_addr a \<le> guest_phys_addr b"
    "\<not> guest_phys_addr b \<le> guest_phys_addr a" by simp_all
  from e have el: "range_get_last (guest_phys_addr a) (memory_size a) \<le>
                range_get_last (guest_phys_addr b) (memory_size b)"
    "\<not> range_get_last (guest_phys_addr b) (memory_size b) \<le>
                range_get_last (guest_phys_addr a) (memory_size a)" by simp_all
  from gl show "guest_phys_addr (merge_reg a b) = guest_phys_addr a"
    and "guest_phys_addr (merge_reg b a) = guest_phys_addr a"
    by (simp_all add: merge_reg_def Let_def min_def)
  from gl el show "memory_size (merge_reg a b) =
           range_get_last (guest_phys_addr b) (memory_size b) - guest_phys_addr a + 1"
    and "memory_size (merge_reg b a) =
           range_get_last (guest_phys_addr b) (memory_size b) - guest_phys_addr a + 1"
    by (simp_all add: merge_reg_def Let_def min_def max_def)
qed

lemma merge_span_small:
  assumes a: "gpa_ok a" and b: "gpa_ok b" and le: "reg_hi a \<le> reg_lo b"
    and nz: "range_get_last (guest_phys_addr b) (memory_size b) - guest_phys_addr a + 1 \<noteq> 0"
  shows "reg_hi b - reg_lo a < 2 ^ 64"
proof (rule ccontr)
  assume big: "\<not> ?thesis"
  let ?e = "range_get_last (guest_phys_addr b) (memory_size b)"
  from b have bk: "range_ok (guest_phys_addr b) (memory_size b)" by (simp add: gpa_ok_def)
  note B = range_ok_nat[OF bk]
  note al = gpa_ok_lo_hi[OF a] and bl = gpa_ok_lo_hi[OF b]
  from B(2) have ue: "unat ?e = reg_hi b - 1" by (simp add: reg_hi_def)
  from le al bl ue have "unat (guest_phys_addr a) \<le> unat ?e" unfolding reg_lo_def by linarith
  then have "guest_phys_addr a \<le> ?e" by (simp add: word_le_nat_alt)
  then have "unat (?e - guest_phys_addr a) = unat ?e - unat (guest_phys_addr a)" by (rule unat_sub)
  with ue have d: "unat (?e - guest_phys_addr a) = reg_hi b - 1 - reg_lo a"
    by (simp add: reg_lo_def)
  from big al bl le have "reg_hi b - 1 - reg_lo a = 2 ^ 64 - 1" by linarith
  with d have eq: "unat (?e - guest_phys_addr a) + unat (1::u64) = 2 ^ 64" by simp
  then have "unat (?e - guest_phys_addr a) + unat (1::u64) \<le> 2 ^ 64" by simp
  from word_end_cases[OF this] consider
    (x) "unat (?e - guest_phys_addr a + 1) = unat (?e - guest_phys_addr a) + unat (1::u64)"
    | (y) "?e - guest_phys_addr a + 1 = 0" by blast
  then show False
  proof cases
    case x
    have "unat (?e - guest_phys_addr a + 1) < 2 ^ LENGTH(64)" by (rule unsigned_less)
    then have "unat (?e - guest_phys_addr a + 1) < 2 ^ 64" by simp
    with x eq show False by linarith
  next
    case y
    with nz show False by simp
  qed
qed

lemma merge_reg_gpa:
  assumes c: "gpa_ok c" and r: "gpa_ok reg"
    and dj: "\<not> regions_overlap reg c"
    and adj: "adjacent reg c \<or> adjacent c reg"
    and nz: "memory_size (merge_reg c reg) \<noteq> 0"
  shows "\<exists>L R. (L = c \<and> R = reg \<or> L = reg \<and> R = c) \<and> adjacent L R \<and> reg_hi L = reg_lo R \<and>
           guest_phys_addr (merge_reg c reg) = guest_phys_addr L \<and>
           memory_size (merge_reg c reg) = memory_size L + memory_size R \<and>
           reg_hi R - reg_lo L < 2 ^ 64"
proof -
  note cl = gpa_ok_lo_hi[OF c] and rl = gpa_ok_lo_hi[OF r]
  have key: "adjacent a b \<and> reg_hi a = reg_lo b \<and>
      range_get_last (guest_phys_addr b) (memory_size b) - guest_phys_addr a + 1 =
        memory_size a + memory_size b \<and> reg_hi b - reg_lo a < 2 ^ 64"
    if a: "gpa_ok a" and b: "gpa_ok b" and le: "reg_hi a \<le> reg_lo b"
      and ad: "adjacent a b \<or> adjacent b a"
      and z: "range_get_last (guest_phys_addr b) (memory_size b) - guest_phys_addr a + 1 \<noteq> 0"
    for a b
  proof -
    note al = gpa_ok_lo_hi[OF a] and bl = gpa_ok_lo_hi[OF b]
    note small = merge_span_small[OF a b le z]
    have nb: "\<not> adjacent b a"
    proof
      assume "adjacent b a"
      from adjacent_gpa_nat[OF b this] small al bl le show False by linarith
    qed
    with ad have ab: "adjacent a b" by simp
    from adjacent_gpa_nat[OF a ab] al bl le have h: "reg_hi a = reg_lo b" by linarith
    from ab have "guest_phys_addr b = guest_phys_addr a + memory_size a"
      by (simp add: adjacent_alt)
    then have "range_get_last (guest_phys_addr b) (memory_size b) - guest_phys_addr a + 1 =
        memory_size a + memory_size b"
      by (simp add: range_get_last_def)
    with ab h small show ?thesis by simp
  qed
  from dj have "reg_hi reg \<le> reg_lo c \<or> reg_hi c \<le> reg_lo reg"
    using regions_overlap_nat[OF r c] by linarith
  then show ?thesis
  proof
    assume le: "reg_hi reg \<le> reg_lo c"
    note M = merge_reg_ordered[OF r c le]
    from nz M(4) have "range_get_last (guest_phys_addr c) (memory_size c) - guest_phys_addr reg + 1 \<noteq> 0"
      by simp
    from key[OF r c le adj this] M(2) M(4) show ?thesis by auto
  next
    assume le: "reg_hi c \<le> reg_lo reg"
    note M = merge_reg_ordered[OF c r le]
    from nz M(3) have z: "range_get_last (guest_phys_addr reg) (memory_size reg) - guest_phys_addr c + 1 \<noteq> 0"
      by simp
    from adj have "adjacent c reg \<or> adjacent reg c" by blast
    from key[OF c r le this z] M(1) M(3) show ?thesis by auto
  qed
qed

lemma regions_overlap_self: "gpa_ok x \<Longrightarrow> regions_overlap x x"
  using regions_overlap_nat[of x x] gpa_ok_lo_hi[of x] by simp

lemma merge_reg_span:
  assumes c: "gpa_ok c" and r: "gpa_ok reg"
    and dj: "\<not> regions_overlap reg c"
    and adj: "adjacent reg c \<or> adjacent c reg"
    and nz: "memory_size (merge_reg c reg) \<noteq> 0"
  shows "\<exists>L R. (L = c \<and> R = reg \<or> L = reg \<and> R = c) \<and> adjacent L R \<and> reg_hi L = reg_lo R \<and>
           guest_phys_addr (merge_reg c reg) = guest_phys_addr L \<and>
           memory_size (merge_reg c reg) = memory_size L + memory_size R \<and>
           gpa_ok (merge_reg c reg) \<and>
           reg_lo (merge_reg c reg) = reg_lo L \<and> reg_hi (merge_reg c reg) = reg_hi R"
proof -
  let ?m = "merge_reg c reg"
  from merge_reg_gpa[OF assms] obtain L R where
    LR: "L = c \<and> R = reg \<or> L = reg \<and> R = c" and ad: "adjacent L R" and h: "reg_hi L = reg_lo R"
    and g: "guest_phys_addr ?m = guest_phys_addr L"
    and z: "memory_size ?m = memory_size L + memory_size R"
    and small: "reg_hi R - reg_lo L < 2 ^ 64" by blast
  from LR c r have ok: "gpa_ok L" "gpa_ok R" by auto
  note ll = gpa_ok_lo_hi[OF ok(1)] and rl = gpa_ok_lo_hi[OF ok(2)]
  from h small ll rl have "unat (memory_size L) + unat (memory_size R) < 2 ^ 64"
    unfolding reg_hi_def reg_lo_def by linarith
  then have "unat (memory_size L) + unat (memory_size R) < 2 ^ LENGTH(64)" by simp
  then have "unat (memory_size L + memory_size R) = unat (memory_size L) + unat (memory_size R)"
    by (simp only: unat_add_lem)
  with z have uz: "unat (memory_size ?m) = unat (memory_size L) + unat (memory_size R)" by simp
  from g have lo: "reg_lo ?m = reg_lo L" by (simp add: reg_lo_def)
  from g uz h have hi: "reg_hi ?m = reg_hi R" unfolding reg_hi_def reg_lo_def by simp
  from uz ll rl have "0 < unat (memory_size ?m)" unfolding reg_hi_def reg_lo_def by linarith
  moreover from hi rl have "unat (guest_phys_addr ?m) + unat (memory_size ?m) \<le> 2 ^ 64"
    by (simp add: reg_hi_def)
  ultimately have "gpa_ok ?m" unfolding gpa_ok_def by (rule range_okI)
  with LR ad h g z lo hi show ?thesis by blast
qed

lemma merge_reg_disjoint:
  assumes c: "gpa_ok c" and r: "gpa_ok reg"
    and dj: "\<not> regions_overlap reg c"
    and adj: "adjacent reg c \<or> adjacent c reg"
    and nz: "memory_size (merge_reg c reg) \<noteq> 0"
    and x: "gpa_ok x" "\<not> regions_overlap x c" "\<not> regions_overlap x reg"
  shows "\<not> regions_overlap x (merge_reg c reg)" and "\<not> regions_overlap (merge_reg c reg) x"
    and "x \<noteq> merge_reg c reg"
proof -
  let ?m = "merge_reg c reg"
  from merge_reg_span[OF c r dj adj nz] obtain L R where
    LR: "L = c \<and> R = reg \<or> L = reg \<and> R = c" and h: "reg_hi L = reg_lo R"
    and m: "gpa_ok ?m" "reg_lo ?m = reg_lo L" "reg_hi ?m = reg_hi R" by blast
  from LR x c r have "\<not> regions_overlap x L" "\<not> regions_overlap x R" "gpa_ok L" "gpa_ok R"
    by auto
  then have "reg_hi x \<le> reg_lo L \<or> reg_hi L \<le> reg_lo x" "reg_hi x \<le> reg_lo R \<or> reg_hi R \<le> reg_lo x"
    using regions_overlap_nat[OF x(1), of L] regions_overlap_nat[OF x(1), of R] by linarith+
  with h gpa_ok_lo_hi[OF x(1)] m have d: "reg_hi x \<le> reg_lo ?m \<or> reg_hi ?m \<le> reg_lo x"
    by linarith
  then show 1: "\<not> regions_overlap x ?m" using regions_overlap_nat[OF x(1) m(1)] by linarith
  from d show "\<not> regions_overlap ?m x" using regions_overlap_nat[OF m(1) x(1)] by linarith
  from 1 regions_overlap_self[OF x(1)] show "x \<noteq> ?m" by auto
qed

lemma table_inv_replace:
  assumes inv: "table_inv V" and set: "set V' = insert m (set V - {c, reg})"
    and d: "distinct V'" and m: "gpa_ok m"
    and dj: "\<And>x. x \<in> set V \<Longrightarrow> x \<noteq> c \<Longrightarrow> x \<noteq> reg \<Longrightarrow>
              \<not> regions_overlap x m \<and> \<not> regions_overlap m x"
  shows "table_inv V'"
  using inv d m dj unfolding table_inv_def set by auto

lemma cur_reg_simps [simp]:
  "cur_reg (st\<lparr>regs_out := xs\<rparr>) = cur_reg st"
  "cur_reg (st\<lparr>merged := mi\<rparr>) = cur_reg st"
  "cur_reg (st\<lparr>cur_start := guest_phys_addr m, cur_size := memory_size m,
              cur_uaddr := userspace_addr m\<rparr>) = m"
  by (simp_all add: cur_reg_def)

lemma assign_step_inv:
  assumes inv: "table_inv (assign_view st (reg # rest))" and slot: "slot_ok st"
    and step: "assign_step st reg = Some st'"
  shows "table_inv (assign_view st' rest)" and "slot_ok st'"
proof -
  let ?c = "cur_reg st" and ?V = "assign_view st (reg # rest)"
  let ?out = "regs_out st"
  have cin: "?c \<in> set ?V"
  proof (cases "merged st")
    case None
    then show ?thesis by (simp add: assign_view_def)
  next
    case (Some i)
    with slot have "i < length ?out" "?out ! i = ?c" by (simp_all add: slot_ok_def)
    then have "?c \<in> set ?out" by (metis nth_mem)
    then show ?thesis by (simp add: assign_view_def)
  qed
  have rin: "reg \<in> set ?V" by (simp add: assign_view_def)
  from inv cin rin have ok: "gpa_ok ?c" "gpa_ok reg" by (auto simp: table_inv_def)
  from step have nov: "\<not> regions_overlap reg ?c" by (auto simp: assign_step_alt split: if_splits)
  show "table_inv (assign_view st' rest)" and "slot_ok st'"
  proof (atomize (full), cases "\<not> adjacent reg ?c \<and> \<not> adjacent ?c reg")
    case True
    with step nov have st': "st' = st\<lparr>regs_out := ?out @ [reg]\<rparr>"
      by (simp add: assign_step_alt)
    have ms: "mset (assign_view st' rest) = mset ?V"
      by (simp add: st' assign_view_def split: option.splits)
    from table_inv_mset[OF ms] inv have "table_inv (assign_view st' rest)" by simp
    moreover from slot have "slot_ok st'"
      by (auto simp: st' slot_ok_def nth_append split: option.splits)
    ultimately show "table_inv (assign_view st' rest) \<and> slot_ok st'" by simp
  next
    case False
    then have adj: "adjacent reg ?c \<or> adjacent ?c reg" by blast
    let ?m = "merge_reg ?c reg"
    from step nov False have nz: "memory_size ?m \<noteq> 0"
      by (auto simp: assign_step_alt Let_def split: if_splits)
    from merge_reg_span[OF ok nov adj nz] have mok: "gpa_ok ?m" by blast
    have away: "\<not> regions_overlap x ?m \<and> \<not> regions_overlap ?m x \<and> x \<noteq> ?m"
      if "x \<in> set ?V" "x \<noteq> ?c" "x \<noteq> reg" for x
    proof -
      from inv that cin rin have "gpa_ok x" "\<not> regions_overlap x ?c" "\<not> regions_overlap x reg"
        by (auto simp: table_inv_def)
      from merge_reg_disjoint[OF ok nov adj nz this] show ?thesis by simp
    qed
    from inv have dV: "distinct ?V" by (simp add: table_inv_def)
    show "table_inv (assign_view st' rest) \<and> slot_ok st'"
    proof (cases "merged st")
      case None
      with step nov False nz have st': "st' = st\<lparr>regs_out := ?out @ [?m],
          merged := Some (length ?out), cur_start := guest_phys_addr ?m,
          cur_size := memory_size ?m, cur_uaddr := userspace_addr ?m\<rparr>"
        by (simp add: assign_step_alt Let_def)
      have V: "?V = ?out @ [?c] @ reg # rest" by (simp add: assign_view_def None)
      have V': "assign_view st' rest = ?out @ [?m] @ rest" by (simp add: st' assign_view_def)
      from dV V have dd: "distinct ?out" "distinct rest" "set ?out \<inter> set rest = {}"
        "?c \<notin> set ?out" "?c \<notin> set rest" "reg \<notin> set ?out" "reg \<notin> set rest" "?c \<noteq> reg"
        by auto
      have "?m \<notin> set ?out \<union> set rest"
      proof
        assume "?m \<in> set ?out \<union> set rest"
        with dd have "?m \<in> set ?V" "?m \<noteq> ?c" "?m \<noteq> reg" by (auto simp: V)
        from away[OF this] show False by simp
      qed
      with dd have d': "distinct (assign_view st' rest)" by (auto simp: V')
      from dd have s': "set (assign_view st' rest) = insert ?m (set ?V - {?c, reg})"
        by (auto simp: V V')
      from table_inv_replace[OF inv s' d' mok] away
      have "table_inv (assign_view st' rest)" by blast
      moreover have "slot_ok st'" by (simp add: st' slot_ok_def)
      ultimately show ?thesis by simp
    next
      case (Some i)
      with step nov False nz have st': "st' = st\<lparr>regs_out := ?out[i := ?m],
          cur_start := guest_phys_addr ?m,
          cur_size := memory_size ?m, cur_uaddr := userspace_addr ?m\<rparr>"
        by (simp add: assign_step_alt Let_def)
      from slot Some have i: "i < length ?out" "?out ! i = ?c" by (simp_all add: slot_ok_def)
      have V: "?V = ?out @ reg # rest" by (simp add: assign_view_def Some)
      have V': "assign_view st' rest = ?out[i := ?m] @ rest"
        by (simp add: st' assign_view_def Some)
      from dV V have dd: "distinct ?out" "distinct rest" "set ?out \<inter> set rest = {}"
        "reg \<notin> set ?out" "reg \<notin> set rest" by auto
      from i have cout: "?c \<in> set ?out" by (metis nth_mem)
      with dd have cr: "?c \<noteq> reg" "?c \<notin> set rest" by auto
      have mfresh: "?m \<notin> (set ?out - {?c}) \<union> set rest"
      proof
        assume "?m \<in> (set ?out - {?c}) \<union> set rest"
        with dd cr have "?m \<in> set ?V" "?m \<noteq> ?c" "?m \<noteq> reg" by (auto simp: V)
        from away[OF this] show False by simp
      qed
      have su: "set (?out[i := ?m]) = insert ?m (set ?out - {?c})"
        using set_update_distinct[OF dd(1) i(1)] i(2) by simp
      have du: "distinct (?out[i := ?m])"
        using distinct_list_update[OF dd(1), of ?m i] mfresh i(2) by simp
      from du dd su mfresh have d': "distinct (assign_view st' rest)" by (auto simp: V')
      from su dd cr cout have s': "set (assign_view st' rest) = insert ?m (set ?V - {?c, reg})"
        by (auto simp: V V')
      from table_inv_replace[OF inv s' d' mok] away
      have "table_inv (assign_view st' rest)" by blast
      moreover from i have "slot_ok st'" by (simp add: st' slot_ok_def Some)
      ultimately show ?thesis by simp
    qed
  qed
qed

lemma assign_loop_inv:
  "table_inv (assign_view st rest) \<Longrightarrow> slot_ok st \<Longrightarrow> assign_loop st rest = Some st' \<Longrightarrow>
   table_inv (assign_view st' []) \<and> slot_ok st'"
proof (induction rest arbitrary: st)
  case Nil
  then show ?case by simp
next
  case (Cons reg rest)
  from Cons.prems(3) obtain st1 where
    s1: "assign_step st reg = Some st1" and l1: "assign_loop st1 rest = Some st'"
    by (auto split: option.splits)
  from assign_step_inv[OF Cons.prems(1,2) s1] Cons.IH[OF _ _ l1] show ?case by simp
qed

lemma assign_finish_view:
  "assign_finish st = Some rt \<Longrightarrow> rt = assign_view st []"
  by (auto simp: assign_finish_def assign_view_def cur_reg_def split: option.splits if_splits)

lemma assign_table_inv:
  assumes inv: "table_inv rt" and s: "range_ok s l"
    and free: "\<forall>r\<in>set rt. \<not> ranges_overlap (guest_phys_addr r) (memory_size r) s l"
    and res: "vhost_dev_assign_memory rt s l u = Some rt'"
  shows "table_inv rt'"
proof -
  let ?st = "\<lparr>regs_out = [], merged = None, cur_start = s, cur_size = l, cur_uaddr = u\<rparr>"
  let ?n = "\<lparr>guest_phys_addr = s, memory_size = l, userspace_addr = u\<rparr>"
  from res obtain st' where l: "assign_loop ?st rt = Some st'" and f: "assign_finish st' = Some rt'"
    by (auto simp: vhost_dev_assign_memory_def split: option.splits)
  have v: "assign_view ?st rt = ?n # rt" by (simp add: assign_view_def cur_reg_def)
  have nok: "gpa_ok ?n" using s by (simp add: gpa_ok_def)
  have nfree: "\<not> regions_overlap r ?n \<and> \<not> regions_overlap ?n r \<and> r \<noteq> ?n" if "r \<in> set rt" for r
  proof -
    from inv that have rk: "gpa_ok r" by (simp add: table_inv_def)
    from free that have 1: "\<not> regions_overlap r ?n" by (simp add: regions_overlap_def)
    then have "\<not> regions_overlap ?n r"
      using regions_overlap_nat[OF rk nok] regions_overlap_nat[OF nok rk] by blast
    moreover from 1 regions_overlap_self[OF rk] have "r \<noteq> ?n" by auto
    ultimately show ?thesis using 1 by simp
  qed
  with inv nok have "table_inv (?n # rt)" unfolding table_inv_def by auto
  with v have "table_inv (assign_view ?st rt)" by simp
  moreover have "slot_ok ?st" by (simp add: slot_ok_def)
  ultimately have "table_inv (assign_view st' [])" using assign_loop_inv[OF _ _ l] by simp
  with assign_finish_view[OF f] show ?thesis by simp
qed

lemma regions_overlap_bytes:
  assumes a: "gpa_ok a" and b: "gpa_ok b"
  shows "regions_overlap a b \<longleftrightarrow> region_bytes a \<inter> region_bytes b \<noteq> {}"
proof
  assume ov: "regions_overlap a b"
  let ?x = "max (guest_phys_addr a) (guest_phys_addr b)"
  from ov have o: "guest_phys_addr a \<le> range_get_last (guest_phys_addr b) (memory_size b)"
    "guest_phys_addr b \<le> range_get_last (guest_phys_addr a) (memory_size a)"
    by (simp_all add: regions_overlap_def ranges_overlap_def Let_def not_less)
  from a b have w: "guest_phys_addr a \<le> range_get_last (guest_phys_addr a) (memory_size a)"
    "guest_phys_addr b \<le> range_get_last (guest_phys_addr b) (memory_size b)"
    by (simp_all add: gpa_ok_def range_ok_def)
  from o w have "?x \<in> region_bytes a" "?x \<in> region_bytes b"
    by (simp_all add: region_bytes_def)
  then show "region_bytes a \<inter> region_bytes b \<noteq> {}" by blast
next
  assume "region_bytes a \<inter> region_bytes b \<noteq> {}"
  then obtain x where "x \<in> region_bytes a" "x \<in> region_bytes b" by blast
  then have "guest_phys_addr a \<le> range_get_last (guest_phys_addr b) (memory_size b)"
    "guest_phys_addr b \<le> range_get_last (guest_phys_addr a) (memory_size a)"
    by (auto simp: region_bytes_def)
  then show "regions_overlap a b"
    by (simp add: regions_overlap_def ranges_overlap_def Let_def not_less)
qed

lemma apply_op_table_inv:
  assumes inv: "table_inv rt" and ok: "op_range_ok x" and res: "apply_op rt x = Some rt'"
  shows "table_inv rt'"
proof (cases x)
  case (Unassign g l)
  with ok res unassign_table_inv[OF inv] show ?thesis by simp
next
  case (Assign g l h)
  with res obtain rt1 where u: "vhost_dev_unassign_memory rt g l = Some rt1"
    and a: "vhost_dev_assign_memory rt1 g l h = Some rt'"
    by (auto split: option.splits)
  from ok Assign have r: "range_ok g l" by simp
  from inv have "\<forall>r\<in>set rt. gpa_ok r" by (simp add: table_inv_def)
  from unassign_clears(2)[OF this r u]
  have "\<forall>r\<in>set rt1. \<not> ranges_overlap (guest_phys_addr r) (memory_size r) g l" by blast
  from assign_table_inv[OF unassign_table_inv[OF inv r u] r this a] show ?thesis .
qed

lemma run_ops_table_inv:
  "table_inv rt \<Longrightarrow> \<forall>x\<in>set ops. op_range_ok x \<Longrightarrow> run_ops rt ops = Some rt' \<Longrightarrow>
   table_inv rt'"
proof (induction ops arbitrary: rt)
  case Nil
  then show ?case by simp
next
  case (Cons x ops)
  from Cons.prems(3) obtain rt1 where a: "apply_op rt x = Some rt1"
    and r: "run_ops rt1 ops = Some rt'" by (auto split: option.splits)
  from Cons.prems(2) have "op_range_ok x" "\<forall>y\<in>set ops. op_range_ok y" by simp_all
  from Cons.IH[OF apply_op_table_inv[OF Cons.prems(1) this(1) a] this(2) r] show ?case .
qed

lemma table_inv_no_overlap:
  assumes "table_inv rt" "i < length rt" "j < length rt" "i \<noteq> j"
  shows "region_bytes (rt ! i) \<inter> region_bytes (rt ! j) = {}"
proof -
  from assms have "rt ! i \<noteq> rt ! j" by (simp add: table_inv_def nth_eq_iff_index_eq)
  moreover from assms have in': "rt ! i \<in> set rt" "rt ! j \<in> set rt" by simp_all
  ultimately have "\<not> regions_overlap (rt ! i) (rt ! j)" using assms(1)
    by (simp add: table_inv_def)
  moreover from assms(1) in' have "gpa_ok (rt ! i)" "gpa_ok (rt ! j)"
    by (simp_all add: table_inv_def)
  ultimately show ?thesis by (simp add: regions_overlap_bytes)
qed

text \<open>
  C2. Starting from the empty table of \<^verbatim>\<open>vhost_dev_init\<close>, after any sequence of unassign
  and unassign-then-assign operations whose ranges are nonempty and do not wrap around
  the 64-bit address space, any table the operations produce holds regions of nonzero
  size that share no guest-physical byte (and that the modelled \<^verbatim>\<open>ranges_overlap\<close> reports
  as not overlapping).
\<close>

theorem region_table_non_overlap:
  assumes "\<forall>x\<in>set ops. op_range_ok x" and "run_ops [] ops = Some rt"
  shows "(\<forall>i<length rt. \<forall>j<length rt. i \<noteq> j \<longrightarrow>
            region_bytes (rt ! i) \<inter> region_bytes (rt ! j) = {} \<and>
            \<not> regions_overlap (rt ! i) (rt ! j)) \<and>
         (\<forall>r\<in>set rt. memory_size r \<noteq> 0)"
proof -
  have "table_inv []" by (simp add: table_inv_def)
  from run_ops_table_inv[OF this assms] have inv: "table_inv rt" .
  have "region_bytes (rt ! i) \<inter> region_bytes (rt ! j) = {} \<and> \<not> regions_overlap (rt ! i) (rt ! j)"
    if "i < length rt" "j < length rt" "i \<noteq> j" for i j
  proof -
    from table_inv_no_overlap[OF inv that] have d: "region_bytes (rt ! i) \<inter> region_bytes (rt ! j) = {}" .
    from inv that have "gpa_ok (rt ! i)" "gpa_ok (rt ! j)" by (simp_all add: table_inv_def)
    with d show ?thesis by (simp add: regions_overlap_bytes)
  qed
  moreover from inv have "\<forall>r\<in>set rt. memory_size r \<noteq> 0"
    by (simp add: table_inv_def gpa_ok_size)
  ultimately show ?thesis by blast
qed

lemma demo_ops_run: "run_ops [] demo_ops = Some demo_table"
  by (simp add: demo_ops_def demo_table_def vhost_dev_unassign_memory_def unassign_init_def
      unassign_step_def unassign_table_def vhost_dev_assign_memory_def assign_step_def
      assign_finish_def ranges_overlap_def range_get_last_def Let_def)

lemma demo_ops_ok: "\<forall>x\<in>set demo_ops. op_range_ok x"
  by (simp add: demo_ops_def range_ok_def range_get_last_def)

theorem region_table_non_overlap_witness:
  "run_ops [] demo_ops = Some demo_table \<and> list_all op_range_ok demo_ops \<and>
   region_bytes (demo_table ! 0) \<inter> region_bytes (demo_table ! 2) = {} \<and>
   \<not> regions_overlap (demo_table ! 0) (demo_table ! 2) \<and>
   memory_size (demo_table ! 2) \<noteq> 0"
proof -
  note T = region_table_non_overlap[OF demo_ops_ok demo_ops_run]
  have len: "0 < length demo_table" "2 < length demo_table" "(0::nat) \<noteq> 2"
    by (simp_all add: demo_table_def)
  from T[THEN conjunct1, rule_format, OF len]
  have 1: "region_bytes (demo_table ! 0) \<inter> region_bytes (demo_table ! 2) = {} \<and>
        \<not> regions_overlap (demo_table ! 0) (demo_table ! 2)" .
  from len(2) have "demo_table ! 2 \<in> set demo_table" by (rule nth_mem)
  with T have 2: "memory_size (demo_table ! 2) \<noteq> 0" by blast
  from demo_ops_ok have 3: "list_all op_range_ok demo_ops" by (simp add: list_all_iff)
  from demo_ops_run 1 2 3 show ?thesis by blast
qed

lemma adjacent_left_min:
  assumes ad: "adjacent L R" and h: "hva_ok L"
  shows "min (userspace_addr L) (userspace_addr R) = userspace_addr L"
    and "min (userspace_addr R) (userspace_addr L) = userspace_addr L"
proof -
  from ad have e: "userspace_addr L + memory_size L = userspace_addr R" by (simp add: adjacent_alt)
  from h have "userspace_addr L \<le> userspace_addr L + memory_size L" by (simp add: hva_ok_def)
  with e have "userspace_addr L \<le> userspace_addr R" by simp
  then show "min (userspace_addr L) (userspace_addr R) = userspace_addr L"
    and "min (userspace_addr R) (userspace_addr L) = userspace_addr L"
    by (simp_all add: min_def)
qed

lemma merge_reg_join:
  assumes c: "gpa_ok c" and r: "gpa_ok reg"
    and hc: "hva_ok c" and hr: "hva_ok reg"
    and dj: "\<not> regions_overlap reg c"
    and adj: "adjacent reg c \<or> adjacent c reg"
    and nz: "memory_size (merge_reg c reg) \<noteq> 0"
  shows "\<exists>L R. (L = c \<and> R = reg \<or> L = reg \<and> R = c) \<and> adjacent L R \<and> reg_hi L = reg_lo R \<and>
           merge_reg c reg = join_reg L R \<and> hva_ok (merge_reg c reg) \<and>
           gpa_ok (merge_reg c reg) \<and> reg_lo (merge_reg c reg) = reg_lo L \<and>
           reg_hi (merge_reg c reg) = reg_hi R"
proof -
  let ?m = "merge_reg c reg"
  from merge_reg_span[OF c r dj adj nz] obtain L R where
    LR: "L = c \<and> R = reg \<or> L = reg \<and> R = c" and ad: "adjacent L R" and h: "reg_hi L = reg_lo R"
    and g: "guest_phys_addr ?m = guest_phys_addr L"
    and z: "memory_size ?m = memory_size L + memory_size R"
    and m: "gpa_ok ?m" "reg_lo ?m = reg_lo L" "reg_hi ?m = reg_hi R" by blast
  from LR hc hr have hl: "hva_ok L" "hva_ok R" by auto
  have "userspace_addr ?m = min (userspace_addr c) (userspace_addr reg)"
    by (simp add: merge_reg_def Let_def)
  with LR adjacent_left_min[OF ad hl(1)] have u: "userspace_addr ?m = userspace_addr L" by auto
  from g z u have j: "?m = join_reg L R" by (simp add: join_reg_def)
  from ad have e: "userspace_addr R = userspace_addr L + memory_size L" by (simp add: adjacent_alt)
  from hl(1) have "unat (userspace_addr L) + unat (memory_size L) < 2 ^ LENGTH(64)"
    by (simp add: hva_ok_nat)
  then have "unat (userspace_addr L + memory_size L) = unat (userspace_addr L) + unat (memory_size L)"
    by (simp only: unat_add_lem)
  with e have ur: "unat (userspace_addr R) = unat (userspace_addr L) + unat (memory_size L)" by simp
  from m h have "unat (memory_size ?m) = unat (memory_size L) + unat (memory_size R)"
    unfolding reg_lo_def reg_hi_def g by linarith
  with u ur hl(2) have "hva_ok ?m" by (simp add: hva_ok_nat)
  with LR ad h j m show ?thesis by blast
qed

lemma join_reg_adjacent:
  assumes "adjacent L R"
  shows "adjacent x (join_reg L R) \<longleftrightarrow> adjacent x L"
    and "adjacent (join_reg L R) y \<longleftrightarrow> adjacent R y"
  using assms by (auto simp: adjacent_alt join_reg_def add.assoc[symmetric])

lemma assign_view_cur: "slot_ok st \<Longrightarrow> cur_reg st \<in> set (assign_view st rest)"
proof (cases "merged st")
  case None
  then show ?thesis by (simp add: assign_view_def)
next
  case (Some i)
  assume "slot_ok st"
  with Some have "i < length (regs_out st)" "regs_out st ! i = cur_reg st"
    by (simp_all add: slot_ok_def)
  then have "cur_reg st \<in> set (regs_out st)" by (metis nth_mem)
  then show ?thesis by (simp add: assign_view_def)
qed

lemma assign_step_view:
  assumes inv: "table_inv (assign_view st (reg # rest))" and slot: "slot_ok st"
    and step: "assign_step st reg = Some st'"
  shows "(\<not> adjacent reg (cur_reg st) \<and> \<not> adjacent (cur_reg st) reg \<and>
          mset (assign_view st' rest) = mset (assign_view st (reg # rest)) \<and>
          cur_reg st' = cur_reg st) \<or>
         ((adjacent reg (cur_reg st) \<or> adjacent (cur_reg st) reg) \<and>
          memory_size (merge_reg (cur_reg st) reg) \<noteq> 0 \<and>
          cur_reg st' = merge_reg (cur_reg st) reg \<and>
          add_mset (cur_reg st) (add_mset reg (mset (assign_view st' rest))) =
            add_mset (merge_reg (cur_reg st) reg) (mset (assign_view st (reg # rest))))"
proof -
  let ?c = "cur_reg st" and ?V = "assign_view st (reg # rest)"
  let ?out = "regs_out st"
  from step have nov: "\<not> regions_overlap reg ?c" by (auto simp: assign_step_alt split: if_splits)
  show ?thesis
  proof (cases "\<not> adjacent reg ?c \<and> \<not> adjacent ?c reg")
    case True
    with step nov have st': "st' = st\<lparr>regs_out := ?out @ [reg]\<rparr>"
      by (simp add: assign_step_alt)
    have "mset (assign_view st' rest) = mset ?V"
      by (simp add: st' assign_view_def split: option.splits)
    moreover have "cur_reg st' = ?c" by (simp add: st')
    ultimately show ?thesis using True by simp
  next
    case False
    let ?m = "merge_reg ?c reg"
    from step nov False have nz: "memory_size ?m \<noteq> 0"
      by (auto simp: assign_step_alt Let_def split: if_splits)
    have "cur_reg st' = ?m \<and> add_mset ?c (add_mset reg (mset (assign_view st' rest))) =
            add_mset ?m (mset ?V)"
    proof (cases "merged st")
      case None
      with step nov False nz have st': "st' = st\<lparr>regs_out := ?out @ [?m],
          merged := Some (length ?out), cur_start := guest_phys_addr ?m,
          cur_size := memory_size ?m, cur_uaddr := userspace_addr ?m\<rparr>"
        by (simp add: assign_step_alt Let_def)
      have "?V = ?out @ [?c] @ reg # rest" by (simp add: assign_view_def None)
      moreover have "assign_view st' rest = ?out @ [?m] @ rest" by (simp add: st' assign_view_def)
      moreover have "cur_reg st' = ?m" by (simp add: st')
      ultimately show ?thesis by simp
    next
      case (Some i)
      with step nov False nz have st': "st' = st\<lparr>regs_out := ?out[i := ?m],
          cur_start := guest_phys_addr ?m,
          cur_size := memory_size ?m, cur_uaddr := userspace_addr ?m\<rparr>"
        by (simp add: assign_step_alt Let_def)
      from slot Some have i: "i < length ?out" "?out ! i = ?c" by (simp_all add: slot_ok_def)
      have V: "?V = ?out @ reg # rest" by (simp add: assign_view_def Some)
      have V': "assign_view st' rest = ?out[i := ?m] @ rest"
        by (simp add: st' assign_view_def Some)
      from i have "mset (?out[i := ?m]) = add_mset ?m (mset ?out - {#?c#})"
        by (simp add: mset_update)
      moreover from i have "?c \<in># mset ?out" by (metis nth_mem set_mset_mset)
      ultimately have "add_mset ?c (mset (?out[i := ?m])) = add_mset ?m (mset ?out)"
        by simp
      moreover have "cur_reg st' = ?m" by (simp add: st')
      ultimately show ?thesis by (simp add: V V')
    qed
    with False nz show ?thesis by simp
  qed
qed

lemma merge_reg_neq:
  assumes c: "gpa_ok c" and r: "gpa_ok reg"
    and dj: "\<not> regions_overlap reg c"
    and adj: "adjacent reg c \<or> adjacent c reg"
    and nz: "memory_size (merge_reg c reg) \<noteq> 0"
  shows "merge_reg c reg \<noteq> c" and "merge_reg c reg \<noteq> reg"
proof -
  from merge_reg_span[OF assms] obtain L R where
    LR: "L = c \<and> R = reg \<or> L = reg \<and> R = c" and h: "reg_hi L = reg_lo R"
    and m: "reg_lo (merge_reg c reg) = reg_lo L" "reg_hi (merge_reg c reg) = reg_hi R" by blast
  from LR c r have "gpa_ok L" "gpa_ok R" by auto
  from gpa_ok_lo_hi[OF this(1)] gpa_ok_lo_hi[OF this(2)] h m
  have "reg_hi (merge_reg c reg) \<noteq> reg_hi L" "reg_lo (merge_reg c reg) \<noteq> reg_lo R" by linarith+
  with LR show "merge_reg c reg \<noteq> c" and "merge_reg c reg \<noteq> reg" by auto
qed

lemma assign_step_merge_set:
  assumes inv: "table_inv V" and cin: "c \<in> set V" and rin: "reg \<in> set V" and ne: "c \<noteq> reg"
    and mc: "m \<noteq> c" and mr: "m \<noteq> reg"
    and eq: "add_mset c (add_mset reg (mset V')) = add_mset m (mset V)"
  shows "set V' = insert m (set V - {c, reg})"
proof -
  from inv have d: "distinct V" by (simp add: table_inv_def)
  have cnt: "count (mset V') x + (if x = c then 1 else 0) + (if x = reg then 1 else 0) =
             (if x = m then 1 else 0) + count (mset V) x" for x
  proof -
    have "count (add_mset c (add_mset reg (mset V'))) x = count (add_mset m (mset V)) x"
      using eq by simp
    then show ?thesis by (auto simp del: count_greater_zero_iff)
  qed
  have one: "count (mset V) x \<le> 1" for x using d by (simp add: distinct_count_atmost_1)
  have mem: "x \<in> set W \<longleftrightarrow> 0 < count (mset W) x" for x and W :: "vhost_memory_region list"
    by simp
  show ?thesis
  proof (intro set_eqI iffI)
    fix x assume "x \<in> set V'"
    then have px: "0 < count (mset V') x" by (simp only: mem)
    show "x \<in> insert m (set V - {c, reg})"
    proof (cases "x = m")
      case False
      have "x \<noteq> c"
      proof
        assume "x = c"
        with cnt[of x] one[of x] px False ne show False by (simp del: count_greater_zero_iff)
      qed
      moreover have "x \<noteq> reg"
      proof
        assume "x = reg"
        with cnt[of x] one[of x] px False ne show False by (simp del: count_greater_zero_iff)
      qed
      moreover from cnt[of x] px False calculation have "0 < count (mset V) x"
        by (simp del: count_greater_zero_iff)
      then have "x \<in> set V" by (simp only: mem)
      ultimately show ?thesis by simp
    qed simp
  next
    fix x assume x: "x \<in> insert m (set V - {c, reg})"
    show "x \<in> set V'"
    proof (cases "x = m")
      case True
      with cnt[of m] mc mr have "0 < count (mset V') m" by (simp del: count_greater_zero_iff)
      with True show ?thesis by (simp only: mem)
    next
      case False
      with x have xv: "x \<in> set V" "x \<noteq> c" "x \<noteq> reg" by auto
      from xv(1) have "0 < count (mset V) x" by (simp only: mem)
      with cnt[of x] xv False have "0 < count (mset V') x" by (simp del: count_greater_zero_iff)
      then show ?thesis by (simp only: mem)
    qed
  qed
qed

lemma assign_step_mm:
  assumes inv: "table_inv (assign_view st (reg # rest))" and slot: "slot_ok st"
    and mm: "assign_mm st (reg # rest)"
    and step: "assign_step st reg = Some st'"
  shows "assign_mm st' rest"
proof -
  let ?c = "cur_reg st" and ?V = "assign_view st (reg # rest)" and ?V' = "assign_view st' rest"
  have cin: "?c \<in> set ?V" using assign_view_cur[OF slot] .
  have rin: "reg \<in> set ?V" by (simp add: assign_view_def)
  from inv cin rin have ok: "gpa_ok ?c" "gpa_ok reg" by (auto simp: table_inv_def)
  from mm cin rin have hok: "hva_ok ?c" "hva_ok reg" by (auto simp: assign_mm_def)
  from step have nov: "\<not> regions_overlap reg ?c" by (auto simp: assign_step_alt split: if_splits)
  with regions_overlap_self[OF ok(2)] have ne: "?c \<noteq> reg" by auto
  from mm have adjV: "\<And>x y. x \<in> set ?V \<Longrightarrow> y \<in> set ?V \<Longrightarrow> adjacent x y \<Longrightarrow>
      (x = ?c \<and> y \<in> set (reg # rest)) \<or> (y = ?c \<and> x \<in> set (reg # rest))"
    by (simp add: assign_mm_def)
  let ?m = "merge_reg ?c reg"
  from assign_step_view[OF inv slot step] consider
    (keep) "\<not> adjacent reg ?c" "\<not> adjacent ?c reg" "mset ?V' = mset ?V" "cur_reg st' = ?c"
    | (merge) "adjacent reg ?c \<or> adjacent ?c reg" "memory_size ?m \<noteq> 0" "cur_reg st' = ?m"
        "add_mset ?c (add_mset reg (mset ?V')) = add_mset ?m (mset ?V)"
    by blast
  then show ?thesis
  proof cases
    case keep
    note na = keep(1,2) and ms = keep(3) and c' = keep(4)
    from ms have s: "set ?V' = set ?V" by (rule mset_eq_setD)
    have "(x = ?c \<and> y \<in> set rest) \<or> (y = ?c \<and> x \<in> set rest)"
      if "x \<in> set ?V" "y \<in> set ?V" "adjacent x y" for x y
      using adjV[OF that] na that(3) by auto
    with mm s c' show ?thesis by (simp add: assign_mm_def)
  next
    case merge
    note adj = merge(1) and nz = merge(2) and c' = merge(3) and eq = merge(4)
    note mne = merge_reg_neq[OF ok nov adj nz]
    from assign_step_merge_set[OF inv cin rin ne mne eq]
    have s: "set ?V' = insert ?m (set ?V - {?c, reg})" .
    from merge_reg_join[OF ok hok nov adj nz] obtain L R where
      LR: "L = ?c \<and> R = reg \<or> L = reg \<and> R = ?c" and ad: "adjacent L R"
      and j: "?m = join_reg L R" and hm: "hva_ok ?m" by blast
    from merge_reg_span[OF ok nov adj nz] have mok: "gpa_ok ?m" by blast
    note ja = join_reg_adjacent[OF ad]
    from LR cin rin have Lin: "L \<in> set ?V" "R \<in> set ?V" by auto
    have restV: "\<And>z. z \<in> set rest \<Longrightarrow> z \<in> set ?V" by (simp add: assign_view_def)
    have "(x = ?m \<and> y \<in> set rest) \<or> (y = ?m \<and> x \<in> set rest)"
      if x: "x \<in> set ?V'" and y: "y \<in> set ?V'" and a: "adjacent x y" for x y
    proof -
      consider (mm) "x = ?m" "y = ?m"
        | (mo) "x = ?m" "y \<in> set ?V" "y \<noteq> ?c" "y \<noteq> reg"
        | (om) "y = ?m" "x \<in> set ?V" "x \<noteq> ?c" "x \<noteq> reg"
        | (oo) "x \<in> set ?V" "x \<noteq> ?c" "x \<noteq> reg" "y \<in> set ?V" "y \<noteq> ?c" "y \<noteq> reg"
        using x y s by auto
      then show ?thesis
      proof cases
        case mm
        with a not_self_adjacent_nat[OF mok, of ?m] show ?thesis by simp
      next
        case mo
        with a j ja(2) have "adjacent R y" by simp
        from adjV[OF Lin(2) mo(2) this] mo LR ne show ?thesis by auto
      next
        case om
        with a j ja(1) have "adjacent x L" by simp
        from adjV[OF om(2) Lin(1) this] om LR ne show ?thesis by auto
      next
        case oo
        from adjV[OF oo(1) oo(4) a] oo show ?thesis by simp
      qed
    qed
    moreover from mm s hm have "\<forall>x\<in>set ?V'. hva_ok x" by (auto simp: assign_mm_def)
    ultimately show ?thesis using c' by (simp add: assign_mm_def)
  qed
qed

lemma assign_loop_mm:
  "table_inv (assign_view st rest) \<Longrightarrow> slot_ok st \<Longrightarrow> assign_mm st rest \<Longrightarrow>
   assign_loop st rest = Some st' \<Longrightarrow> assign_mm st' []"
proof (induction rest arbitrary: st)
  case Nil
  then show ?case by simp
next
  case (Cons reg rest)
  from Cons.prems(4) obtain st1 where
    s1: "assign_step st reg = Some st1" and l1: "assign_loop st1 rest = Some st'"
    by (auto split: option.splits)
  note I = assign_step_inv[OF Cons.prems(1,2) s1]
  from Cons.IH[OF I assign_step_mm[OF Cons.prems(1,2,3) s1] l1] show ?case .
qed

lemma assign_table_ok:
  assumes ok: "table_ok rt" and s: "range_ok s l" and h: "u \<le> u + l"
    and free: "\<forall>r\<in>set rt. \<not> ranges_overlap (guest_phys_addr r) (memory_size r) s l"
    and res: "vhost_dev_assign_memory rt s l u = Some rt'"
  shows "table_ok rt'"
proof -
  let ?st = "\<lparr>regs_out = [], merged = None, cur_start = s, cur_size = l, cur_uaddr = u\<rparr>"
  let ?n = "\<lparr>guest_phys_addr = s, memory_size = l, userspace_addr = u\<rparr>"
  from ok have inv: "table_inv rt" and mm: "merge_maximal rt" and hv: "\<forall>r\<in>set rt. hva_ok r"
    by (simp_all add: table_ok_def)
  from res obtain st' where l: "assign_loop ?st rt = Some st'" and f: "assign_finish st' = Some rt'"
    by (auto simp: vhost_dev_assign_memory_def split: option.splits)
  have v: "assign_view ?st rt = ?n # rt" by (simp add: assign_view_def cur_reg_def)
  have c: "cur_reg ?st = ?n" by (simp add: cur_reg_def)
  have nok: "gpa_ok ?n" using s by (simp add: gpa_ok_def)
  have nfree: "\<not> regions_overlap r ?n \<and> \<not> regions_overlap ?n r \<and> r \<noteq> ?n" if "r \<in> set rt" for r
  proof -
    from inv that have rk: "gpa_ok r" by (simp add: table_inv_def)
    from free that have 1: "\<not> regions_overlap r ?n" by (simp add: regions_overlap_def)
    then have "\<not> regions_overlap ?n r"
      using regions_overlap_nat[OF rk nok] regions_overlap_nat[OF nok rk] by blast
    moreover from 1 regions_overlap_self[OF rk] have "r \<noteq> ?n" by auto
    ultimately show ?thesis using 1 by simp
  qed
  with inv nok have "table_inv (?n # rt)" unfolding table_inv_def by auto
  with v have tv: "table_inv (assign_view ?st rt)" by simp
  have sl: "slot_ok ?st" by (simp add: slot_ok_def)
  have "(x = ?n \<and> y \<in> set rt) \<or> (y = ?n \<and> x \<in> set rt)"
    if "x \<in> set (?n # rt)" "y \<in> set (?n # rt)" "adjacent x y" for x y
    using that mm not_self_adjacent_nat[OF nok, of ?n] by (auto simp: merge_maximal_def)
  moreover from h hv have "\<forall>x\<in>set (?n # rt). hva_ok x" by (simp add: hva_ok_def)
  ultimately have "assign_mm ?st rt" unfolding assign_mm_def v c by blast
  from assign_loop_mm[OF tv sl this l] have "assign_mm st' []" .
  then have "merge_maximal (assign_view st' []) \<and> (\<forall>r\<in>set (assign_view st' []). hva_ok r)"
    by (auto simp: assign_mm_def merge_maximal_def)
  moreover from assign_loop_inv[OF tv sl l] have "table_inv (assign_view st' [])" by simp
  ultimately show ?thesis using assign_finish_view[OF f] by (simp add: table_ok_def)
qed

lemma unassign_table_ok:
  assumes ok: "table_ok rt" and s: "range_ok s l"
    and res: "vhost_dev_unassign_memory rt s l = Some rt'"
  shows "table_ok rt'"
proof -
  let ?P = "concat (map (unassign_pieces s l) rt)"
  from ok have inv: "table_inv rt" and mm: "merge_maximal rt" and hv: "\<forall>r\<in>set rt. hva_ok r"
    by (simp_all add: table_ok_def)
  from unassign_mset[OF res] have se: "set rt' = set ?P" by (rule mset_eq_setD)
  from unassign_pieces_merge_maximal[OF inv mm s] se have "merge_maximal rt'"
    by (simp add: merge_maximal_def)
  moreover have "hva_ok p" if "p \<in> set rt'" for p
  proof -
    from that se obtain r where r: "r \<in> set rt" "p \<in> set (unassign_pieces s l r)" by auto
    from inv r(1) have rk: "gpa_ok r" by (simp add: table_inv_def)
    from piece_of_hva_ok[OF unassign_pieces_piece_of[OF s rk r(2)] rk] hv r(1) show ?thesis
      by simp
  qed
  ultimately show ?thesis using unassign_table_inv[OF inv s res] by (simp add: table_ok_def)
qed

lemma apply_op_table_ok:
  assumes inv: "table_ok rt" and ok: "op_ok x" and res: "apply_op rt x = Some rt'"
  shows "table_ok rt'"
proof (cases x)
  case (Unassign g l)
  with ok res unassign_table_ok[OF inv] show ?thesis by simp
next
  case (Assign g l h)
  with res obtain rt1 where u: "vhost_dev_unassign_memory rt g l = Some rt1"
    and a: "vhost_dev_assign_memory rt1 g l h = Some rt'"
    by (auto split: option.splits)
  from ok Assign have r: "range_ok g l" and h: "h \<le> h + l" by simp_all
  from inv have "\<forall>r\<in>set rt. gpa_ok r" by (simp add: table_ok_def table_inv_def)
  from unassign_clears(2)[OF this r u]
  have "\<forall>r\<in>set rt1. \<not> ranges_overlap (guest_phys_addr r) (memory_size r) g l" by blast
  from assign_table_ok[OF unassign_table_ok[OF inv r u] r h this a] show ?thesis .
qed

lemma run_ops_table_ok:
  "table_ok rt \<Longrightarrow> \<forall>x\<in>set ops. op_ok x \<Longrightarrow> run_ops rt ops = Some rt' \<Longrightarrow> table_ok rt'"
proof (induction ops arbitrary: rt)
  case Nil
  then show ?case by simp
next
  case (Cons x ops)
  from Cons.prems(3) obtain rt1 where a: "apply_op rt x = Some rt1"
    and r: "run_ops rt1 ops = Some rt'" by (auto split: option.splits)
  from Cons.prems(2) have "op_ok x" "\<forall>y\<in>set ops. op_ok y" by simp_all
  from Cons.IH[OF apply_op_table_ok[OF Cons.prems(1) this(1) a] this(2) r] show ?case .
qed

text \<open>
  C6. Starting from the empty table of \<^verbatim>\<open>vhost_dev_init\<close>, after any sequence of unassign
  and unassign-then-assign operations on ranges of RAM (the guest-physical range is
  nonempty and does not wrap around the 64-bit address space, and the host-virtual
  address is a pointer to a block of that size, so that \<open>hva + size\<close> does not overflow),
  no two regions of any table the operations produce are adjacent in both
  guest-physical and host-virtual addresses.
\<close>

theorem region_table_merge_maximal:
  assumes "\<forall>x\<in>set ops. op_ok x" and "run_ops [] ops = Some rt"
  shows "\<forall>i<length rt. \<forall>j<length rt. \<not> adjacent (rt ! i) (rt ! j)"
proof -
  have "table_ok []" by (simp add: table_ok_def table_inv_def merge_maximal_def)
  from run_ops_table_ok[OF this assms] have "merge_maximal rt" by (simp add: table_ok_def)
  then show ?thesis by (simp add: merge_maximal_def)
qed

lemma demo_ops_op_ok: "\<forall>x\<in>set demo_ops. op_ok x"
  by (simp add: demo_ops_def range_ok_def range_get_last_def)

lemma merge_ops_op_ok: "\<forall>x\<in>set merge_ops. op_ok x"
  by (simp add: merge_ops_def range_ok_def range_get_last_def)

lemma merge_ops_run: "run_ops [] merge_ops = Some merge_table"
  by code_simp

lemma merge_ops_steps:
  "run_ops [] (take 2 merge_ops) =
     Some [\<lparr>guest_phys_addr = 0, memory_size = 0x1000, userspace_addr = 0x80000000\<rparr>,
           \<lparr>guest_phys_addr = 0x2000, memory_size = 0x1000, userspace_addr = 0x80002000\<rparr>] \<and>
   run_ops [] (take 3 merge_ops) =
     Some [\<lparr>guest_phys_addr = 0, memory_size = 0x3000, userspace_addr = 0x80000000\<rparr>]"
  by code_simp

theorem region_table_merge_maximal_witness:
  "run_ops [] merge_ops = Some merge_table \<and> list_all op_ok merge_ops \<and>
   run_ops [] (take 3 merge_ops) =
     Some [\<lparr>guest_phys_addr = 0, memory_size = 0x3000, userspace_addr = 0x80000000\<rparr>] \<and>
   \<not> adjacent (merge_table ! 0) (merge_table ! 1) \<and>
   \<not> adjacent (merge_table ! 1) (merge_table ! 0)"
proof -
  note T = region_table_merge_maximal[OF merge_ops_op_ok merge_ops_run]
  have len: "0 < length merge_table" "1 < length merge_table"
    by (simp_all add: merge_table_def)
  from T[rule_format, OF len(1) len(2)] T[rule_format, OF len(2) len(1)]
  have "\<not> adjacent (merge_table ! 0) (merge_table ! 1)"
    "\<not> adjacent (merge_table ! 1) (merge_table ! 0)" .
  moreover from merge_ops_op_ok have "list_all op_ok merge_ops" by (simp add: list_all_iff)
  ultimately show ?thesis using merge_ops_run merge_ops_steps by blast
qed

lemma unassign_pieces_nat:
  assumes s: "range_ok s l" and r: "gpa_ok r"
  shows "unassign_pieces s l r =
    (if \<not> (reg_lo r < unat s + unat l \<and> unat s < reg_hi r) then [r]
     else if unat s \<le> reg_lo r \<and> reg_hi r \<le> unat s + unat l then []
     else if reg_hi r \<le> unat s + unat l then [low_part s r]
     else if unat s \<le> reg_lo r then [high_part s l r]
     else [low_part s r, high_part s l r])"
proof -
  have le: "s \<le> guest_phys_addr r \<longleftrightarrow> unat s \<le> reg_lo r"
    by (simp add: word_le_nat_alt reg_lo_def)
  show ?thesis
    by (simp only: unassign_pieces_alt overlap_lo_hi[OF r s] last_le_nat[OF r s] le)
qed

lemma last_plus_one: "range_get_last s l + 1 = s + l"
  by (simp add: range_get_last_def)

lemma high_part_join_left:
  assumes "guest_phys_addr c + memory_size c = s + l" and "adjacent c reg"
  shows "high_part s l (join_reg c reg) = reg"
proof (rule vhost_memory_region.equality)
  from assms(1) have e1: "memory_size c = s + l - guest_phys_addr c"
    by (metis add_diff_cancel_left')
  from assms have e2: "guest_phys_addr reg = s + l"
    "userspace_addr reg = userspace_addr c + memory_size c"
    by (auto simp: adjacent_alt)
  note e = e1 e2
  show "guest_phys_addr (high_part s l (join_reg c reg)) = guest_phys_addr reg"
    by (simp add: high_part_def Let_def join_reg_def last_plus_one e(2))
  show "memory_size (high_part s l (join_reg c reg)) = memory_size reg"
    by (simp add: high_part_def Let_def join_reg_def last_plus_one e(1))
  show "userspace_addr (high_part s l (join_reg c reg)) = userspace_addr reg"
    by (simp add: high_part_def Let_def join_reg_def last_plus_one e(3)) (simp add: e(1))
qed simp

lemma low_part_join_left: "low_part s (join_reg c reg) = low_part s c"
  by (simp add: low_part_def join_reg_def)

lemma low_part_join_right:
  assumes "guest_phys_addr c = s" and "adjacent reg c"
  shows "low_part s (join_reg reg c) = reg"
proof (rule vhost_memory_region.equality)
  from assms have "guest_phys_addr reg + memory_size reg = s" by (auto simp: adjacent_alt)
  then have "s - guest_phys_addr reg = memory_size reg" by (metis add_diff_cancel_left')
  then show "memory_size (low_part s (join_reg reg c)) = memory_size reg"
    by (simp add: low_part_def join_reg_def)
qed (simp_all add: low_part_def join_reg_def)

lemma high_part_join_right:
  assumes "adjacent reg c"
  shows "high_part s l (join_reg reg c) = high_part s l c"
proof -
  from assms have e: "guest_phys_addr c = guest_phys_addr reg + memory_size reg"
    "userspace_addr c = userspace_addr reg + memory_size reg"
    by (auto simp: adjacent_alt)
  show ?thesis by (simp add: high_part_def Let_def join_reg_def last_plus_one e)
qed

lemma mset_concat_map_single:
  assumes "distinct xs" and "c \<in> set xs" and "\<And>x. x \<in> set xs \<Longrightarrow> x \<noteq> c \<Longrightarrow> f x = [x]"
  shows "add_mset c (mset (concat (map f xs))) = mset xs + mset (f c)"
  using assms
proof (induction xs)
  case Nil
  then show ?case by simp
next
  case (Cons x xs)
  show ?case
  proof (cases "x = c")
    case True
    with Cons.prems(1) have "c \<notin> set xs" by simp
    then have "\<forall>y\<in>set xs. f y = [y]" using Cons.prems(3) by auto
    then have "concat (map f xs) = xs" by (induction xs) simp_all
    with True show ?thesis by simp
  next
    case False
    with Cons.prems have "c \<in> set xs" "distinct xs" "f x = [x]" by auto
    with Cons.IH Cons.prems(3) have "add_mset c (mset (concat (map f xs))) = mset xs + mset (f c)"
      by simp
    with \<open>f x = [x]\<close> show ?thesis by simp
  qed
qed

lemma lo_eq_gpa: "reg_lo a = unat s \<Longrightarrow> guest_phys_addr a = s"
  by (simp add: reg_lo_def word_unat_eq_iff)

lemma hi_eq_end: "reg_hi a = unat s + unat l \<Longrightarrow> guest_phys_addr a + memory_size a = s + l"
  by (rule word_end_eq) (simp add: reg_hi_def)

lemma pieces_merge_left:
  assumes s: "range_ok s l" and c: "gpa_ok c" and m: "gpa_ok (join_reg c reg)"
    and inside: "reg_lo c \<le> unat s" "reg_hi c = unat s + unat l"
    and ad: "adjacent c reg"
    and lo: "reg_lo (join_reg c reg) = reg_lo c" and hi: "reg_hi c < reg_hi (join_reg c reg)"
  shows "mset (unassign_pieces s l (join_reg c reg)) = add_mset reg (mset (unassign_pieces s l c))"
proof -
  note sl = range_ok_nat(1)[OF s]
  from hi_eq_end[OF inside(2)] have e: "guest_phys_addr c + memory_size c = s + l" .
  note H = high_part_join_left[OF e ad]
  show ?thesis
  proof (cases "reg_lo c = unat s")
    case True
    with inside sl lo hi show ?thesis
      by (simp add: unassign_pieces_nat[OF s c] unassign_pieces_nat[OF s m] H)
  next
    case False
    with inside sl lo hi show ?thesis
      by (simp add: unassign_pieces_nat[OF s c] unassign_pieces_nat[OF s m] H low_part_join_left)
  qed
qed

lemma pieces_merge_right:
  assumes s: "range_ok s l" and c: "gpa_ok c" and m: "gpa_ok (join_reg reg c)"
    and inside: "reg_lo c = unat s" "unat s + unat l \<le> reg_hi c"
    and ad: "adjacent reg c"
    and lo: "reg_lo (join_reg reg c) < reg_lo c" and hi: "reg_hi (join_reg reg c) = reg_hi c"
  shows "mset (unassign_pieces s l (join_reg reg c)) = add_mset reg (mset (unassign_pieces s l c))"
proof -
  note sl = range_ok_nat(1)[OF s]
  note L = low_part_join_right[OF lo_eq_gpa[OF inside(1)] ad]
  note H = high_part_join_right[OF ad, of s l]
  show ?thesis
  proof (cases "reg_hi c = unat s + unat l")
    case True
    with inside sl lo hi show ?thesis
      by (simp add: unassign_pieces_nat[OF s c] unassign_pieces_nat[OF s m] L)
  next
    case False
    with inside sl lo hi show ?thesis
      by (simp add: unassign_pieces_nat[OF s c] unassign_pieces_nat[OF s m] L H)
  qed
qed

lemma adjacent_offset:
  "adjacent a b \<Longrightarrow>
   userspace_addr a - guest_phys_addr a = userspace_addr b - guest_phys_addr b"
proof -
  assume "adjacent a b"
  then have "guest_phys_addr b = guest_phys_addr a + memory_size a"
    "userspace_addr b = userspace_addr a + memory_size a" by (auto simp: adjacent_alt)
  then show ?thesis by simp
qed

lemma high_piece_adjacent:
  assumes s: "range_ok s l" and c: "gpa_ok c"
    and inside: "reg_lo c \<le> unat s" "unat s + unat l < reg_hi c"
    and ad: "adjacent c reg"
  shows "high_part s l c \<in> set (unassign_pieces s l c)" and "adjacent (high_part s l c) reg"
    and "high_part s l c \<noteq> c"
proof -
  let ?B = "high_part s l c"
  note sl = range_ok_nat(1)[OF s]
  from inside sl show in': "?B \<in> set (unassign_pieces s l c)"
    by (simp add: unassign_pieces_nat[OF s c])
  note po = unassign_pieces_piece_of[OF s c in']
  from inside sl have ov: "ranges_overlap (guest_phys_addr c) (memory_size c) s l"
    and nl: "\<not> range_get_last (guest_phys_addr c) (memory_size c) \<le> range_get_last s l"
    by (simp_all add: overlap_lo_hi[OF c s] last_le_nat[OF c s])
  note hp = high_part_nat[OF s c ov nl]
  from hp(2) have e: "guest_phys_addr ?B + memory_size ?B = guest_phys_addr c + memory_size c"
    by (intro word_end_eq) (simp add: reg_hi_def)
  from po have o: "userspace_addr ?B - guest_phys_addr ?B = userspace_addr c - guest_phys_addr c"
    by (simp add: piece_of_def)
  have "userspace_addr ?B + memory_size ?B =
        (userspace_addr ?B - guest_phys_addr ?B) + (guest_phys_addr ?B + memory_size ?B)" by simp
  also have "\<dots> = (userspace_addr c - guest_phys_addr c) + (guest_phys_addr c + memory_size c)"
    by (simp only: o e)
  also have "\<dots> = userspace_addr c + memory_size c" by simp
  finally have "userspace_addr ?B + memory_size ?B = userspace_addr c + memory_size c" .
  with e ad show "adjacent ?B reg" by (simp add: adjacent_alt)
  from hp(1) inside sl show "?B \<noteq> c" by auto
qed

lemma low_piece_adjacent:
  assumes s: "range_ok s l" and c: "gpa_ok c"
    and inside: "reg_lo c < unat s" "unat s + unat l \<le> reg_hi c"
    and ad: "adjacent reg c"
  shows "low_part s c \<in> set (unassign_pieces s l c)" and "adjacent reg (low_part s c)"
    and "low_part s c \<noteq> c"
proof -
  note sl = range_ok_nat(1)[OF s]
  from inside sl show "low_part s c \<in> set (unassign_pieces s l c)"
    by (simp add: unassign_pieces_nat[OF s c])
  from ad show "adjacent reg (low_part s c)" by (simp add: adjacent_alt low_part_def)
  from inside have "\<not> s \<le> guest_phys_addr c" by (simp add: word_le_nat_alt reg_lo_def)
  from low_part_nat(2)[OF c this] inside sl show "low_part s c \<noteq> c" by auto
qed

lemma assign_step_rt:
  assumes inv: "table_inv (assign_view st (reg # rest))" and slot: "slot_ok st"
    and mm: "assign_mm st (reg # rest)"
    and K: "assign_rt s l u rt0 st (reg # rest)"
    and mm0: "merge_maximal rt0" and s: "range_ok s l"
    and step: "assign_step st reg = Some st'"
  shows "assign_rt s l u rt0 st' rest"
proof -
  let ?c = "cur_reg st" and ?V = "assign_view st (reg # rest)" and ?V' = "assign_view st' rest"
  let ?m = "merge_reg ?c reg"
  let ?P = "unassign_pieces s l"
  have cin: "?c \<in> set ?V" using assign_view_cur[OF slot] .
  have rin: "reg \<in> set ?V" by (simp add: assign_view_def)
  from inv cin rin have ok: "gpa_ok ?c" "gpa_ok reg" by (auto simp: table_inv_def)
  from mm cin rin have hok: "hva_ok ?c" "hva_ok reg" by (auto simp: assign_mm_def)
  from step have nov: "\<not> regions_overlap reg ?c" by (auto simp: assign_step_alt split: if_splits)
  with regions_overlap_self[OF ok(2)] have ne: "?c \<noteq> reg" by auto
  from K have Keq: "mset ?V + mset (?P ?c) = add_mset ?c (mset rt0)"
    and in1: "reg_lo ?c \<le> unat s" and in2: "unat s + unat l \<le> reg_hi ?c"
    and off: "userspace_addr ?c - guest_phys_addr ?c = u - s"
    by (simp_all add: assign_rt_def)
  have in0: "x \<in> set rt0" if "x \<in> set ?V \<or> x \<in> set (?P ?c)" "x \<noteq> ?c" for x
  proof -
    from that(1) have "x \<in># mset ?V + mset (?P ?c)" by auto
    with Keq have "x \<in># add_mset ?c (mset rt0)" by simp
    with that(2) show ?thesis by simp
  qed
  from in0[of reg] rin ne have r0: "reg \<in> set rt0" by simp
  from assign_step_view[OF inv slot step] consider
    (keep) "mset ?V' = mset ?V" "cur_reg st' = ?c"
    | (merge) "adjacent reg ?c \<or> adjacent ?c reg" "memory_size ?m \<noteq> 0" "cur_reg st' = ?m"
        "add_mset ?c (add_mset reg (mset ?V')) = add_mset ?m (mset ?V)"
    by blast
  then show ?thesis
  proof cases
    case keep
    with K show ?thesis by (simp add: assign_rt_def)
  next
    case merge
    note adj = merge(1) and nz = merge(2) and c' = merge(3) and eq = merge(4)
    from merge_reg_join[OF ok hok nov adj nz] obtain L R where
      LR: "L = ?c \<and> R = reg \<or> L = reg \<and> R = ?c" and ad: "adjacent L R"
      and h: "reg_hi L = reg_lo R" and j: "?m = join_reg L R"
      and mok: "gpa_ok ?m" and ml: "reg_lo ?m = reg_lo L" and mh: "reg_hi ?m = reg_hi R"
      by blast
    note cl = gpa_ok_lo_hi[OF ok(1)] and rl = gpa_ok_lo_hi[OF ok(2)]
    have PM: "mset (?P ?m) = add_mset reg (mset (?P ?c))"
      and bounds: "reg_lo ?m \<le> unat s" "unat s + unat l \<le> reg_hi ?m"
      and moff: "userspace_addr ?m - guest_phys_addr ?m = u - s"
    proof -
      from LR consider (left) "L = ?c" "R = reg" | (right) "L = reg" "R = ?c" by blast
      then have "mset (?P ?m) = add_mset reg (mset (?P ?c)) \<and>
          reg_lo ?m \<le> unat s \<and> unat s + unat l \<le> reg_hi ?m \<and>
          userspace_addr ?m - guest_phys_addr ?m = u - s"
      proof cases
        case left
        with ad have a: "adjacent ?c reg" by simp
        have e: "reg_hi ?c = unat s + unat l"
        proof (rule ccontr)
          assume "reg_hi ?c \<noteq> unat s + unat l"
          with in2 have "unat s + unat l < reg_hi ?c" by simp
          note B = high_piece_adjacent[OF s ok(1) in1 this a]
          from in0[of "high_part s l ?c"] B(1,3) have "high_part s l ?c \<in> set rt0" by simp
          with mm0 r0 B(2) show False by (auto simp: merge_maximal_def)
        qed
        from left h mh ml rl have lh: "reg_lo (join_reg ?c reg) = reg_lo ?c"
          "reg_hi ?c < reg_hi (join_reg ?c reg)" unfolding j by simp_all
        from mok left have mj: "gpa_ok (join_reg ?c reg)" unfolding j by simp
        from pieces_merge_left[OF s ok(1) mj in1 e a lh]
        have "mset (?P ?m) = add_mset reg (mset (?P ?c))" unfolding j left by simp
        moreover from left ml in1 have "reg_lo ?m \<le> unat s" by simp
        moreover from left mh in2 h cl rl have "unat s + unat l \<le> reg_hi ?m" by simp
        moreover from left off have "userspace_addr ?m - guest_phys_addr ?m = u - s"
          unfolding j by (simp add: join_reg_def)
        ultimately show ?thesis by simp
      next
        case right
        with ad have a: "adjacent reg ?c" by simp
        have e: "reg_lo ?c = unat s"
        proof (rule ccontr)
          assume "reg_lo ?c \<noteq> unat s"
          with in1 have "reg_lo ?c < unat s" by simp
          note A = low_piece_adjacent[OF s ok(1) this in2 a]
          from in0[of "low_part s ?c"] A(1,3) have "low_part s ?c \<in> set rt0" by simp
          with mm0 r0 A(2) show False by (auto simp: merge_maximal_def)
        qed
        from right h mh ml rl have lh: "reg_lo (join_reg reg ?c) < reg_lo ?c"
          "reg_hi (join_reg reg ?c) = reg_hi ?c" unfolding j by simp_all
        from mok right have mj: "gpa_ok (join_reg reg ?c)" unfolding j by simp
        from pieces_merge_right[OF s ok(1) mj e in2 a lh]
        have "mset (?P ?m) = add_mset reg (mset (?P ?c))" unfolding j right by simp
        moreover from right ml in1 h cl rl have "reg_lo ?m \<le> unat s" by simp
        moreover from right mh in2 have "unat s + unat l \<le> reg_hi ?m" by simp
        moreover from right off adjacent_offset[OF a]
        have "userspace_addr ?m - guest_phys_addr ?m = u - s"
          unfolding j by (simp add: join_reg_def)
        ultimately show ?thesis by simp
      qed
      then show "mset (?P ?m) = add_mset reg (mset (?P ?c))"
        and "reg_lo ?m \<le> unat s" "unat s + unat l \<le> reg_hi ?m"
        and "userspace_addr ?m - guest_phys_addr ?m = u - s" by simp_all
    qed
    have "add_mset ?c (mset ?V' + mset (?P ?m)) =
          add_mset ?c (add_mset reg (mset ?V')) + mset (?P ?c)"
      by (simp add: PM)
    also have "\<dots> = add_mset ?m (mset ?V + mset (?P ?c))" by (simp add: eq)
    also have "\<dots> = add_mset ?c (add_mset ?m (mset rt0))" by (simp add: Keq)
    finally have "mset ?V' + mset (?P ?m) = add_mset ?m (mset rt0)" by simp
    with bounds moff c' show ?thesis by (simp add: assign_rt_def)
  qed
qed

lemma assign_loop_rt:
  "table_inv (assign_view st rest) \<Longrightarrow> slot_ok st \<Longrightarrow> assign_mm st rest \<Longrightarrow>
   assign_rt s l u rt0 st rest \<Longrightarrow> merge_maximal rt0 \<Longrightarrow> range_ok s l \<Longrightarrow>
   assign_loop st rest = Some st' \<Longrightarrow> assign_rt s l u rt0 st' [] \<and> slot_ok st'"
proof (induction rest arbitrary: st)
  case Nil
  then show ?case by simp
next
  case (Cons reg rest)
  from Cons.prems(7) obtain st1 where
    s1: "assign_step st reg = Some st1" and l1: "assign_loop st1 rest = Some st'"
    by (auto split: option.splits)
  note I = assign_step_inv[OF Cons.prems(1,2) s1]
  note M = assign_step_mm[OF Cons.prems(1,2,3) s1]
  note R = assign_step_rt[OF Cons.prems(1,2,3,4,5,6) s1]
  from Cons.IH[OF I M R Cons.prems(5,6) l1] show ?case .
qed

text \<open>
  C7. On a table that satisfies the region invariants (nonempty non-wrapping regions,
  pairwise disjoint, merge-maximal, each a block of RAM whose host-virtual end address
  does not overflow), for a range of the same kind that overlaps no region: when the
  assign completes, the unassign of the same range completes too and yields the
  regions of the table before the assign (as a multiset, hence as a set: order is not
  observable).
\<close>

theorem assign_unassign_round_trip:
  assumes ok: "table_ok rt" and s: "range_ok s l" and h: "u \<le> u + l"
    and free: "\<forall>r\<in>set rt. \<not> ranges_overlap (guest_phys_addr r) (memory_size r) s l"
    and res: "vhost_dev_assign_memory rt s l u = Some rt1"
  shows "\<exists>rt2. vhost_dev_unassign_memory rt1 s l = Some rt2 \<and> mset rt2 = mset rt"
proof -
  let ?st = "\<lparr>regs_out = [], merged = None, cur_start = s, cur_size = l, cur_uaddr = u\<rparr>"
  let ?n = "\<lparr>guest_phys_addr = s, memory_size = l, userspace_addr = u\<rparr>"
  let ?P = "unassign_pieces s l"
  from ok have inv: "table_inv rt" and mm: "merge_maximal rt" and hv: "\<forall>r\<in>set rt. hva_ok r"
    by (simp_all add: table_ok_def)
  from res obtain st' where l: "assign_loop ?st rt = Some st'" and f: "assign_finish st' = Some rt1"
    by (auto simp: vhost_dev_assign_memory_def split: option.splits)
  have v: "assign_view ?st rt = ?n # rt" by (simp add: assign_view_def cur_reg_def)
  have c: "cur_reg ?st = ?n" by (simp add: cur_reg_def)
  have nok: "gpa_ok ?n" using s by (simp add: gpa_ok_def)
  note sl = range_ok_nat(1)[OF s]
  have nfree: "\<not> regions_overlap r ?n \<and> \<not> regions_overlap ?n r \<and> r \<noteq> ?n" if "r \<in> set rt" for r
  proof -
    from inv that have rk: "gpa_ok r" by (simp add: table_inv_def)
    from free that have 1: "\<not> regions_overlap r ?n" by (simp add: regions_overlap_def)
    then have "\<not> regions_overlap ?n r"
      using regions_overlap_nat[OF rk nok] regions_overlap_nat[OF nok rk] by blast
    moreover from 1 regions_overlap_self[OF rk] have "r \<noteq> ?n" by auto
    ultimately show ?thesis using 1 by simp
  qed
  with inv nok have "table_inv (?n # rt)" unfolding table_inv_def by auto
  with v have tv: "table_inv (assign_view ?st rt)" by simp
  have sl0: "slot_ok ?st" by (simp add: slot_ok_def)
  have "(x = ?n \<and> y \<in> set rt) \<or> (y = ?n \<and> x \<in> set rt)"
    if "x \<in> set (?n # rt)" "y \<in> set (?n # rt)" "adjacent x y" for x y
    using that mm not_self_adjacent_nat[OF nok, of ?n] by (auto simp: merge_maximal_def)
  moreover from h hv have "\<forall>x\<in>set (?n # rt). hva_ok x" by (simp add: hva_ok_def)
  ultimately have am: "assign_mm ?st rt" unfolding assign_mm_def v c by blast
  have "?P ?n = []"
    using sl by (simp add: unassign_pieces_nat[OF s nok] reg_lo_def reg_hi_def)
  then have K0: "assign_rt s l u rt ?st rt"
    unfolding assign_rt_def v c by (simp add: reg_lo_def reg_hi_def)
  from assign_loop_rt[OF tv sl0 am K0 mm s l]
  have K: "assign_rt s l u rt st' []" and sl': "slot_ok st'" by simp_all
  from assign_finish_view[OF f] have rt1: "rt1 = assign_view st' []" .
  let ?c = "cur_reg st'"
  from K have Keq: "mset rt1 + mset (?P ?c) = add_mset ?c (mset rt)"
    and in1: "reg_lo ?c \<le> unat s" and in2: "unat s + unat l \<le> reg_hi ?c"
    by (simp_all add: assign_rt_def rt1)
  from assign_table_ok[OF ok s h free res] have ok1: "table_ok rt1" .
  then have inv1: "table_inv rt1" by (simp add: table_ok_def)
  from unassign_total[OF inv1 s] obtain rt2 where u2: "vhost_dev_unassign_memory rt1 s l = Some rt2"
    by blast
  from assign_view_cur[OF sl', of "[]"] have cin: "?c \<in> set rt1" by (simp add: rt1)
  have single: "?P x = [x]" if "x \<in> set rt1" "x \<noteq> ?c" for x
  proof -
    from inv1 that cin have xk: "gpa_ok x" and ck: "gpa_ok ?c" and "\<not> regions_overlap x ?c"
      by (auto simp: table_inv_def)
    then have "reg_hi x \<le> reg_lo ?c \<or> reg_hi ?c \<le> reg_lo x"
      using regions_overlap_nat[OF xk ck] by linarith
    with in1 in2 show ?thesis by (simp add: unassign_pieces_nat[OF s xk]) linarith
  qed
  from inv1 have "distinct rt1" by (simp add: table_inv_def)
  from mset_concat_map_single[OF this cin single]
  have "add_mset ?c (mset (concat (map ?P rt1))) = mset rt1 + mset (?P ?c)" by simp
  with Keq unassign_mset[OF u2] have "mset rt2 = mset rt" by simp
  with u2 show ?thesis by blast
qed

lemma foldl_max:
  fixes f :: "'a \<Rightarrow> 'b::linorder"
  shows "foldl (\<lambda>a x. max a (f x)) a0 xs = Max (insert a0 (f ` set xs))"
proof (induction xs arbitrary: a0)
  case Nil
  then show ?case by simp
next
  case (Cons x xs)
  have "Max (insert (max a0 (f x)) (f ` set xs)) = Max (insert a0 (insert (f x) (f ` set xs)))"
    by (cases "f ` set xs = {}") (simp_all add: max.assoc)
  with Cons.IH[of "max a0 (f x)"] show ?case by simp
qed

lemma vhost_get_log_size_Max:
  "vhost_get_log_size k dev =
     Max (insert 0
       ((\<lambda>reg. range_get_last (guest_phys_addr reg) (memory_size reg) div LOG_CHUNK k + 1)
           ` set (mem dev) \<union>
        (\<lambda>vq. range_get_last (used_phys vq) (used_size vq) div LOG_CHUNK k + 1)
           ` set (vqs dev)))"
proof -
  let ?f = "\<lambda>reg. range_get_last (guest_phys_addr reg) (memory_size reg) div LOG_CHUNK k + 1"
  let ?g = "\<lambda>vq. range_get_last (used_phys vq) (used_size vq) div LOG_CHUNK k + 1"
  have "vhost_get_log_size k dev =
        foldl (\<lambda>a x. max a (?g x)) (foldl (\<lambda>a x. max a (?f x)) 0 (mem dev)) (vqs dev)"
    by (simp add: vhost_get_log_size_def Let_def range_get_last_def)
  also have "\<dots> = Max (insert (Max (insert 0 (?f ` set (mem dev)))) (?g ` set (vqs dev)))"
    by (simp only: foldl_max)
  also have "\<dots> = Max (insert 0 (?f ` set (mem dev)) \<union> ?g ` set (vqs dev))"
  proof (cases "?g ` set (vqs dev) = {}")
    case True
    then show ?thesis by simp
  next
    case False
    then show ?thesis
      by (subst Max_Un) (simp_all add: max.commute)
  qed
  finally show ?thesis by simp
qed

lemma unat_chunks:
  fixes x c :: u64
  assumes "1 < c"
  shows "unat (x div c + 1) = unat x div unat c + 1"
proof -
  from assms have c2: "2 \<le> unat c" by (simp add: word_less_nat_alt)
  have x: "unat x < 2 ^ 64" using unsigned_less[of x, where 'a = nat] by simp
  have "unat x div unat c \<le> unat x div 2" using c2 by (intro div_le_mono2) simp_all
  also have "\<dots> < 2 ^ 63" using x by simp
  finally have "unat (x div c) + unat (1::u64) < 2 ^ LENGTH(64)" by (simp add: unat_div)
  then have "unat (x div c + 1) = unat (x div c) + unat (1::u64)" by (simp only: unat_add_lem)
  then show ?thesis by (simp add: unat_div)
qed

text \<open>
  C4, as the code computes it: with a chunk of more than one byte, the log size is the
  maximum over the regions and the virtqueue used-ranges of
  \<open>floor(last_byte / CHUNK) + 1\<close>, and \<open>0\<close> when there are none.
\<close>

theorem vhost_get_log_size_floor:
  assumes "1 < LOG_CHUNK k"
  shows "unat (vhost_get_log_size k dev) =
     Max (insert 0
       ((\<lambda>reg. unat (range_get_last (guest_phys_addr reg) (memory_size reg))
                  div unat (LOG_CHUNK k) + 1) ` set (mem dev) \<union>
        (\<lambda>vq. unat (range_get_last (used_phys vq) (used_size vq))
                  div unat (LOG_CHUNK k) + 1) ` set (vqs dev)))"
proof -
  let ?f = "\<lambda>reg. range_get_last (guest_phys_addr reg) (memory_size reg) div LOG_CHUNK k + 1"
  let ?g = "\<lambda>vq. range_get_last (used_phys vq) (used_size vq) div LOG_CHUNK k + 1"
  let ?S = "insert 0 (?f ` set (mem dev) \<union> ?g ` set (vqs dev))"
  have mono: "mono (unat :: u64 \<Rightarrow> nat)" by (simp add: mono_def word_le_nat_alt)
  have "unat (Max ?S) = Max (unat ` ?S)"
    by (rule mono_Max_commute[OF mono]) simp_all
  moreover have "unat ` ?S = insert 0
       ((\<lambda>reg. unat (range_get_last (guest_phys_addr reg) (memory_size reg))
                  div unat (LOG_CHUNK k) + 1) ` set (mem dev) \<union>
        (\<lambda>vq. unat (range_get_last (used_phys vq) (used_size vq))
                  div unat (LOG_CHUNK k) + 1) ` set (vqs dev))"
    by (simp add: image_Un image_image unat_chunks[OF assms])
  ultimately show ?thesis by (simp only: vhost_get_log_size_Max)
qed

lemma lp64_chunk: "1 < LOG_CHUNK lp64_consts"
  by (simp add: lp64_consts_def)

theorem vhost_get_log_size_floor_witness:
  "1 < LOG_CHUNK lp64_consts \<and> unat (vhost_get_log_size lp64_consts one_page_dev) = 1"
proof -
  have "unat (vhost_get_log_size lp64_consts one_page_dev) = 1"
    unfolding vhost_get_log_size_floor[OF lp64_chunk]
    by (simp add: one_page_dev_def lp64_consts_def range_get_last_def)
  with lp64_chunk show ?thesis by simp
qed

text \<open>
  The claim as stated fails on a single region of one page at guest address \<open>0\<close>: its
  last byte is \<open>0xfff\<close>, the code computes \<open>0xfff div CHUNK + 1 = 1\<close> word, and the
  ceiling of the claim gives \<open>2\<close>.
\<close>

theorem vhost_get_log_size_ceil_counterexample:
  "unat (vhost_get_log_size lp64_consts one_page_dev) = 1 \<and>
   spec_total_log_chunks lp64_consts one_page_dev = 2"
  by (simp add: vhost_get_log_size_def spec_total_log_chunks_def ceil_div_def one_page_dev_def
      lp64_consts_def range_get_last_def)

declare harvest.simps [simp del] sync_loop.simps [simp del]

lemma only_log_refl: "only_log dev dev"
  unfolding only_log_def by (rule exI[of _ "log dev"]) simp

lemma only_log_trans: "only_log a b \<Longrightarrow> only_log b c \<Longrightarrow> only_log a c"
  unfolding only_log_def by auto

lemma only_dirty_refl: "only_dirty w w"
  unfolding only_dirty_def by (rule exI[of _ "dirty w"]) simp

lemma only_dirty_trans: "only_dirty a b \<Longrightarrow> only_dirty b c \<Longrightarrow> only_dirty a c"
  unfolding only_dirty_def by auto

lemma harvest_only_dirty: "only_dirty w (harvest k sec w lg)"
proof (induction k sec w lg rule: harvest.induct)
  case (1 k sec w lg)
  show ?case
  proof (cases "ffsll lg = 0")
    case True
    then show ?thesis by (subst harvest.simps) (simp add: only_dirty_refl)
  next
    case False
    let ?w = "w\<lparr>dirty := dirty w @
        [(offset_within_region sec + of_nat (ffsll lg - 1) * LOG_PAGE k, LOG_PAGE k)]\<rparr>"
    have "only_dirty w ?w" unfolding only_dirty_def by blast
    moreover from "1.IH"[OF False refl refl]
    have "only_dirty ?w (harvest k sec ?w (lg AND NOT (push_bit (ffsll lg - 1) 1)))" .
    ultimately have "only_dirty w (harvest k sec ?w (lg AND NOT (push_bit (ffsll lg - 1) 1)))"
      by (rule only_dirty_trans)
    with False show ?thesis by (subst harvest.simps) (simp add: Let_def)
  qed
qed

lemma sync_loop_safe:
  "to \<le> length (log dev) \<Longrightarrow>
   \<exists>dev' w'. sync_loop k sec dev w from to addr = Inr (dev', w') \<and>
             only_log dev dev' \<and> only_dirty w w'"
proof (induction k sec dev w "from" to addr rule: sync_loop.induct)
  case (1 k sec dev w "from" to addr)
  show ?case
  proof (cases "from < to")
    case False
    then show ?thesis by (subst sync_loop.simps) (simp add: only_log_refl only_dirty_refl)
  next
    case True
    with "1.prems" have inb: "\<not> length (log dev) \<le> from" by simp
    show ?thesis
    proof (cases "log dev ! from = 0")
      case z: True
      from "1.IH"(1)[OF True inb z "1.prems"] True inb z show ?thesis
        by (subst sync_loop.simps) simp
    next
      case nz: False
      let ?dev = "dev\<lparr>log := (log dev)[from := 0]\<rparr>"
      let ?w = "harvest k sec w (log dev ! from)"
      have d: "only_log dev ?dev" unfolding only_log_def by (rule exI[of _ "(log dev)[from := 0]"]) simp
      from "1.prems" have "to \<le> length (log ?dev)" by simp
      from "1.IH"(2)[OF True inb nz refl refl refl this] obtain dev' w' where
        r: "sync_loop k sec ?dev ?w (from + 1) to (addr + LOG_CHUNK k) = Inr (dev', w')"
        and o: "only_log ?dev dev'" "only_dirty ?w w'" by blast
      from only_log_trans[OF d o(1)] only_dirty_trans[OF harvest_only_dirty o(2)] r True inb nz
      show ?thesis by (subst sync_loop.simps) (simp add: Let_def)
    qed
  qed
qed

lemma word_div_mono:
  fixes a b c :: u64
  shows "a \<le> b \<Longrightarrow> a div c \<le> b div c"
  by (simp add: word_le_nat_alt unat_div div_le_mono)

lemma sync_region_ok:
  assumes len: "length (log dev) = unat (log_size dev)"
    and cover: "rlast div LOG_CHUNK k < log_size dev"
  shows "\<exists>dev' w'. vhost_dev_sync_region k dev w sec mfirst mlast rfirst rlast = Inr (dev', w') \<and>
                  only_log dev dev' \<and> only_dirty w w'"
    and "max mfirst rfirst \<le> min mlast rlast \<Longrightarrow>
         min mlast rlast div LOG_CHUNK k < log_size dev \<and>
         max mfirst rfirst div LOG_CHUNK k < log_size dev"
proof -
  let ?s = "max mfirst rfirst" and ?e = "min mlast rlast"
  have "?e \<le> rlast" by simp
  from word_div_mono[OF this] cover have e: "?e div LOG_CHUNK k < log_size dev"
    by (rule le_less_trans)
  show a: "?e div LOG_CHUNK k < log_size dev \<and> ?s div LOG_CHUNK k < log_size dev"
    if ne: "?s \<le> ?e"
    using le_less_trans[OF word_div_mono[OF ne] e] e by simp
  show "\<exists>dev' w'. vhost_dev_sync_region k dev w sec mfirst mlast rfirst rlast = Inr (dev', w') \<and>
                  only_log dev dev' \<and> only_dirty w w'"
  proof (cases "?e < ?s")
    case True
    then show ?thesis
      by (simp add: vhost_dev_sync_region_def Let_def only_log_refl only_dirty_refl)
  next
    case False
    then have ne: "?s \<le> ?e" by (simp only: not_less)
    from e have "unat (?e div LOG_CHUNK k) + 1 \<le> length (log dev)"
      by (simp add: len word_less_nat_alt)
    from sync_loop_safe[OF this] obtain dev' w' where
      "sync_loop k sec dev w (unat (?s div LOG_CHUNK k)) (unat (?e div LOG_CHUNK k) + 1)
         (?s div LOG_CHUNK k * LOG_CHUNK k) = Inr (dev', w')"
      "only_log dev dev'" "only_dirty w w'" by blast
    with False a[OF ne] show ?thesis by (simp add: vhost_dev_sync_region_def Let_def)
  qed
qed

text \<open>
  C10. When the per-region sync routine is called with a nonempty intersection on a log
  buffer of \<open>log_size\<close> words, and the range it is given satisfies the coverage bound
  \<open>last_byte / CHUNK < log_size\<close>, both assertions hold and the routine completes: no
  assertion fails and no word at or beyond index \<open>log_size\<close> is read or cleared.
\<close>

theorem sync_region_safe:
  assumes len: "length (log dev) = unat (log_size dev)"
    and cover: "rlast div LOG_CHUNK k < log_size dev"
    and nonempty: "max mfirst rfirst \<le> min mlast rlast"
  shows "min mlast rlast div LOG_CHUNK k < log_size dev \<and>
         max mfirst rfirst div LOG_CHUNK k < log_size dev \<and>
         (\<exists>dev' w'. vhost_dev_sync_region k dev w sec mfirst mlast rfirst rlast = Inr (dev', w') \<and>
                    only_log dev dev' \<and> only_dirty w w')"
  using sync_region_ok[OF len cover] nonempty by blast

theorem sync_region_safe_witness:
  "length (log two_chunk_dev) = unat (log_size two_chunk_dev) \<and>
   range_get_last 0 0x80000 div LOG_CHUNK lp64_consts < log_size two_chunk_dev \<and>
   max 0 0 \<le> min (0x7FFFF :: u64) (range_get_last 0 0x80000) \<and>
   (\<exists>dev' w'. vhost_dev_sync_region lp64_consts two_chunk_dev quiet_world ram_section
                 0 0x7FFFF 0 (range_get_last 0 0x80000) = Inr (dev', w'))"
proof -
  have 1: "length (log two_chunk_dev) = unat (log_size two_chunk_dev)"
    by (simp add: two_chunk_dev_def)
  have 2: "range_get_last 0 0x80000 div LOG_CHUNK lp64_consts < log_size two_chunk_dev"
    by (simp add: two_chunk_dev_def lp64_consts_def range_get_last_def)
  have 3: "max 0 0 \<le> min (0x7FFFF :: u64) (range_get_last 0 0x80000)"
    by (simp add: range_get_last_def)
  from sync_region_safe[OF 1 2 3, of quiet_world ram_section] 1 2 3 show ?thesis by blast
qed

lemma sync_regions_safe:
  "length (log dev) = unat (log_size dev) \<Longrightarrow>
   \<forall>r\<in>set regs. range_get_last (guest_phys_addr r) (memory_size r) div LOG_CHUNK k
      < log_size dev \<Longrightarrow>
   \<exists>dev' w'. sync_regions k sec s e dev w regs = Inr (dev', w') \<and>
             only_log dev dev' \<and> only_dirty w w'"
proof (induction regs arbitrary: dev w)
  case Nil
  then show ?case by (simp add: only_log_refl only_dirty_refl)
next
  case (Cons reg regs)
  from Cons.prems(2)
  have c: "range_get_last (guest_phys_addr reg) (memory_size reg) div LOG_CHUNK k < log_size dev"
    by simp
  from sync_region_ok(1)[OF Cons.prems(1) c] obtain dev1 w1 where
    1: "vhost_dev_sync_region k dev w sec s e (guest_phys_addr reg)
          (range_get_last (guest_phys_addr reg) (memory_size reg)) = Inr (dev1, w1)"
    and o: "only_log dev dev1" "only_dirty w w1" by blast
  from o(1) have f: "log_size dev1 = log_size dev" "length (log dev1) = length (log dev)"
    by (auto simp: only_log_def)
  with Cons.prems have "length (log dev1) = unat (log_size dev1)"
    "\<forall>r\<in>set regs. range_get_last (guest_phys_addr r) (memory_size r) div LOG_CHUNK k
      < log_size dev1" by simp_all
  from Cons.IH[OF this] obtain dev' w' where
    2: "sync_regions k sec s e dev1 w1 regs = Inr (dev', w')"
    and o2: "only_log dev1 dev'" "only_dirty w1 w'" by blast
  from 1 2 only_log_trans[OF o(1) o2(1)] only_dirty_trans[OF o(2) o2(2)]
  show ?case by simp
qed

lemma sync_vqs_safe:
  "length (log dev) = unat (log_size dev) \<Longrightarrow>
   \<forall>q\<in>set qs. range_get_last (used_phys q) (used_size q) div LOG_CHUNK k < log_size dev \<Longrightarrow>
   \<exists>dev' w'. sync_vqs k sec s e dev w qs = Inr (dev', w') \<and>
             only_log dev dev' \<and> only_dirty w w'"
proof (induction qs arbitrary: dev w)
  case Nil
  then show ?case by (simp add: only_log_refl only_dirty_refl)
next
  case (Cons vq qs)
  from Cons.prems(2)
  have c: "range_get_last (used_phys vq) (used_size vq) div LOG_CHUNK k < log_size dev"
    by simp
  from sync_region_ok(1)[OF Cons.prems(1) c] obtain dev1 w1 where
    1: "vhost_dev_sync_region k dev w sec s e (used_phys vq)
          (range_get_last (used_phys vq) (used_size vq)) = Inr (dev1, w1)"
    and o: "only_log dev dev1" "only_dirty w w1" by blast
  from o(1) have f: "log_size dev1 = log_size dev" "length (log dev1) = length (log dev)"
    by (auto simp: only_log_def)
  with Cons.prems have "length (log dev1) = unat (log_size dev1)"
    "\<forall>q\<in>set qs. range_get_last (used_phys q) (used_size q) div LOG_CHUNK k < log_size dev1"
    by simp_all
  from Cons.IH[OF this] obtain dev' w' where
    2: "sync_vqs k sec s e dev1 w1 qs = Inr (dev', w')"
    and o2: "only_log dev1 dev'" "only_dirty w1 w'" by blast
  from 1 2 only_log_trans[OF o(1) o2(1)] only_dirty_trans[OF o(2) o2(2)]
  show ?case by simp
qed

text \<open>Every call the whole sync makes is safe when the log covers every region and
  every used-range.\<close>

lemma sync_dirty_bitmap_safe:
  assumes len: "length (log dev) = unat (log_size dev)"
    and regs: "\<forall>r\<in>set (mem dev).
       range_get_last (guest_phys_addr r) (memory_size r) div LOG_CHUNK k < log_size dev"
    and qs: "\<forall>q\<in>set (vqs dev).
       range_get_last (used_phys q) (used_size q) div LOG_CHUNK k < log_size dev"
  shows "\<exists>dev' w'. vhost_sync_dirty_bitmap k dev w sec s e = Inr (dev', w')"
proof (cases "\<not> log_enabled dev \<or> \<not> started dev")
  case True
  then show ?thesis by (auto simp: vhost_sync_dirty_bitmap_def)
next
  case False
  from sync_regions_safe[OF len regs] obtain dev1 w1 where
    1: "sync_regions k sec s e dev w (mem dev) = Inr (dev1, w1)" and o: "only_log dev dev1"
    by blast
  from o have f: "log_size dev1 = log_size dev" "length (log dev1) = length (log dev)"
    "vqs dev1 = vqs dev" by (auto simp: only_log_def)
  with len qs have "length (log dev1) = unat (log_size dev1)"
    "\<forall>q\<in>set (vqs dev1).
       range_get_last (used_phys q) (used_size q) div LOG_CHUNK k < log_size dev1" by simp_all
  from sync_vqs_safe[OF this] obtain dev' w' where
    "sync_vqs k sec s e dev1 w1 (vqs dev1) = Inr (dev', w')" by blast
  with 1 False show ?thesis by (auto simp: vhost_sync_dirty_bitmap_def)
qed

lemma only_log_fields:
  assumes "only_log dev dev'"
  shows "log_size dev' = log_size dev" "length (log dev') = length (log dev)"
    "mem dev' = mem dev" "vqs dev' = vqs dev" "mem_sections dev' = mem_sections dev"
    "started dev' = started dev" "log_enabled dev' = log_enabled dev"
    "acked_features dev' = acked_features dev"
  using assms by (auto simp: only_log_def)

lemma only_dirty_fields:
  assumes "only_dirty w w'"
  shows "trace w' = trace w" "accel_features w' = accel_features w"
    "accel_vring_log w' = accel_vring_log w"
  using assms by (auto simp: only_dirty_def)

lemma sync_loop_only:
  "sync_loop k sec dev w from to addr = Inr (dev', w') \<Longrightarrow> only_log dev dev' \<and> only_dirty w w'"
proof (induction k sec dev w "from" to addr rule: sync_loop.induct)
  case (1 k sec dev w "from" to addr)
  show ?case
  proof (cases "from < to")
    case False
    with "1.prems" show ?thesis
      by (subst (asm) sync_loop.simps) (simp add: only_log_refl only_dirty_refl)
  next
    case True
    from "1.prems" True have inb: "\<not> length (log dev) \<le> from"
      by (subst (asm) sync_loop.simps) (auto split: if_splits)
    show ?thesis
    proof (cases "log dev ! from = 0")
      case z: True
      from "1.prems" True inb z
      have "sync_loop k sec dev w (from + 1) to (addr + LOG_CHUNK k) = Inr (dev', w')"
        by (subst (asm) sync_loop.simps) simp
      from "1.IH"(1)[OF True inb z this] show ?thesis .
    next
      case nz: False
      let ?dev = "dev\<lparr>log := (log dev)[from := 0]\<rparr>"
      let ?w = "harvest k sec w (log dev ! from)"
      have d: "only_log dev ?dev"
        unfolding only_log_def by (rule exI[of _ "(log dev)[from := 0]"]) simp
      from "1.prems" True inb nz
      have "sync_loop k sec ?dev ?w (from + 1) to (addr + LOG_CHUNK k) = Inr (dev', w')"
        by (subst (asm) sync_loop.simps) (simp add: Let_def)
      from "1.IH"(2)[OF True inb nz refl refl refl this]
      have o: "only_log ?dev dev'" "only_dirty ?w w'" by simp_all
      from only_log_trans[OF d o(1)] only_dirty_trans[OF harvest_only_dirty o(2)]
      show ?thesis by simp
    qed
  qed
qed

lemma sync_region_only:
  "vhost_dev_sync_region k dev w sec mfirst mlast rfirst rlast = Inr (dev', w') \<Longrightarrow>
   only_log dev dev' \<and> only_dirty w w'"
  unfolding vhost_dev_sync_region_def Let_def
  by (auto split: if_splits dest: sync_loop_only simp: only_log_refl only_dirty_refl)

lemma sync_regions_only:
  "sync_regions k sec s e dev w regs = Inr (dev', w') \<Longrightarrow> only_log dev dev' \<and> only_dirty w w'"
proof (induction regs arbitrary: dev w)
  case Nil
  then show ?case by (simp add: only_log_refl only_dirty_refl)
next
  case (Cons reg regs)
  from Cons.prems obtain dev1 w1 where
    1: "vhost_dev_sync_region k dev w sec s e (guest_phys_addr reg)
          (range_get_last (guest_phys_addr reg) (memory_size reg)) = Inr (dev1, w1)"
    and 2: "sync_regions k sec s e dev1 w1 regs = Inr (dev', w')"
    by (auto split: sum.splits)
  from sync_region_only[OF 1] Cons.IH[OF 2] show ?case
    by (blast intro: only_log_trans only_dirty_trans)
qed

lemma sync_vqs_only:
  "sync_vqs k sec s e dev w qs = Inr (dev', w') \<Longrightarrow> only_log dev dev' \<and> only_dirty w w'"
proof (induction qs arbitrary: dev w)
  case Nil
  then show ?case by (simp add: only_log_refl only_dirty_refl)
next
  case (Cons vq qs)
  from Cons.prems obtain dev1 w1 where
    1: "vhost_dev_sync_region k dev w sec s e (used_phys vq)
          (range_get_last (used_phys vq) (used_size vq)) = Inr (dev1, w1)"
    and 2: "sync_vqs k sec s e dev1 w1 qs = Inr (dev', w')"
    by (auto split: sum.splits)
  from sync_region_only[OF 1] Cons.IH[OF 2] show ?case
    by (blast intro: only_log_trans only_dirty_trans)
qed

lemma sync_dirty_bitmap_only:
  assumes "vhost_sync_dirty_bitmap k dev w sec s e = Inr (dev', w')"
  shows "only_log dev dev' \<and> only_dirty w w'"
proof (cases "\<not> log_enabled dev \<or> \<not> started dev")
  case True
  with assms show ?thesis
    by (auto simp: vhost_sync_dirty_bitmap_def only_log_refl only_dirty_refl)
next
  case False
  with assms obtain dev1 w1 where
    1: "sync_regions k sec s e dev w (mem dev) = Inr (dev1, w1)"
    and 2: "sync_vqs k sec s e dev1 w1 (vqs dev1) = Inr (dev', w')"
    by (auto simp: vhost_sync_dirty_bitmap_def split: sum.splits)
  from sync_regions_only[OF 1] sync_vqs_only[OF 2] show ?thesis
    by (blast intro: only_log_trans only_dirty_trans)
qed

lemma sync_sections_only:
  "sync_sections k s e dev w secs = Inr (dev', w') \<Longrightarrow> only_log dev dev' \<and> only_dirty w w'"
proof (induction secs arbitrary: dev w)
  case Nil
  then show ?case by (simp add: only_log_refl only_dirty_refl)
next
  case (Cons sec secs)
  from Cons.prems obtain dev1 w1 where
    1: "vhost_sync_dirty_bitmap k dev w sec s e = Inr (dev1, w1)"
    and 2: "sync_sections k s e dev1 w1 secs = Inr (dev', w')"
    by (auto split: sum.splits)
  from sync_dirty_bitmap_only[OF 1] Cons.IH[OF 2] show ?case
    by (blast intro: only_log_trans only_dirty_trans)
qed

lemma ioctl_trace: "ioctl e w c = (w', r, er) \<Longrightarrow> trace w' = trace w @ [c]"
  by (cases c) (auto simp: ioctl_def Let_def split: if_splits)

lemma log_resize_result:
  assumes "vhost_dev_log_resize e k dev w sz = Inr (dev', w')"
  shows "trace w' = trace w @ [SET_LOG_BASE sz]" and "log_size dev' = sz"
    and "log dev' = replicate (unat sz) 0" and "mem dev' = mem dev" and "vqs dev' = vqs dev"
    and "log_enabled dev' = log_enabled dev" and "started dev' = started dev"
proof -
  obtain w1 r er where i: "ioctl e w (SET_LOG_BASE sz) = (w1, r, er)" by (metis prod_cases3)
  with assms obtain dev1 w2 where
    s: "sync_sections k 0 (log_size dev * LOG_CHUNK k - 1) dev w1 (mem_sections dev) = Inr (dev1, w2)"
    and d: "dev' = dev1\<lparr>log := replicate (unat sz) 0, log_size := sz\<rparr>" and w: "w' = w2"
    by (auto simp: vhost_dev_log_resize_def Let_def split: if_splits sum.splits)
  from sync_sections_only[OF s] have o: "only_log dev dev1" "only_dirty w1 w2" by simp_all
  from only_dirty_fields(1)[OF o(2)] ioctl_trace[OF i] w
  show "trace w' = trace w @ [SET_LOG_BASE sz]" by simp
  from d show "log_size dev' = sz" "log dev' = replicate (unat sz) 0" by simp_all
  from d only_log_fields[OF o(1)]
  show "mem dev' = mem dev" "vqs dev' = vqs dev" "log_enabled dev' = log_enabled dev"
    "started dev' = started dev" by simp_all
qed

lemma get_log_size_cong:
  "mem a = mem b \<Longrightarrow> vqs a = vqs b \<Longrightarrow> vhost_get_log_size k a = vhost_get_log_size k b"
  by (simp add: vhost_get_log_size_def)

lemma set_memory_push_trace:
  assumes en: "log_enabled dev" and res: "set_memory_push e k dev w = Inr (dev', w')"
  shows "mem dev' = mem dev \<and> vqs dev' = vqs dev \<and>
    (let need = vhost_get_log_size k dev;
         grow = log_size dev < need;
         mid = (if grow then need + VHOST_LOG_BUFFER else log_size dev);
         shrink = mid > need + VHOST_LOG_BUFFER
     in trace w' = trace w @ (if grow then [SET_LOG_BASE (need + VHOST_LOG_BUFFER)] else []) @
                   [SET_MEM_TABLE (mem dev)] @ (if shrink then [SET_LOG_BASE need] else []) \<and>
        log_size dev' = (if shrink then need else mid))"
proof -
  let ?need = "vhost_get_log_size k dev"
  let ?grow = "log_size dev < ?need"
  let ?mid = "if ?grow then ?need + VHOST_LOG_BUFFER else log_size dev"
  let ?first = "if ?grow then vhost_dev_log_resize e k dev w (?need + VHOST_LOG_BUFFER)
                else Inr (dev, w)"
  from en res obtain dev1 w1 where f: "?first = Inr (dev1, w1)"
    by (auto simp: set_memory_push_def Let_def split: sum.splits)
  have s1: "trace w1 = trace w @ (if ?grow then [SET_LOG_BASE (?need + VHOST_LOG_BUFFER)] else [])"
    "log_size dev1 = ?mid" "mem dev1 = mem dev" "vqs dev1 = vqs dev"
    "log_enabled dev1 = log_enabled dev"
    using f log_resize_result[of e k dev w "?need + VHOST_LOG_BUFFER" dev1 w1]
    by (auto split: if_splits)
  obtain w2 r er where i: "ioctl e w1 (SET_MEM_TABLE (mem dev1)) = (w2, r, er)"
    by (metis prod_cases3)
  let ?shrink = "log_size dev1 > ?need + VHOST_LOG_BUFFER"
  from en res f i have last: "(if ?shrink then vhost_dev_log_resize e k dev1 w2 ?need
                           else Inr (dev1, w2)) = Inr (dev', w')"
    by (auto simp: set_memory_push_def Let_def split: if_splits)
  have s2: "trace w' = trace w2 @ (if ?shrink then [SET_LOG_BASE ?need] else [])"
    "log_size dev' = (if ?shrink then ?need else log_size dev1)"
    "mem dev' = mem dev1" "vqs dev' = vqs dev1"
    using last log_resize_result[of e k dev1 w2 ?need dev' w']
    by (auto split: if_splits)
  from ioctl_trace[OF i] s1 s2 show ?thesis by (simp add: Let_def)
qed

text \<open>
  C3. When \<^verbatim>\<open>vhost_set_memory\<close> returns on a started device with the log enabled: if one
  of its two no-change tests holds, it has changed nothing and issued no command.
  Otherwise the table of the device is the mutated table and, with \<open>need\<close> the log size
  this table requires, the commands issued are a \<open>SET_LOG_BASE\<close> for a log of
  \<open>need + VHOST_LOG_BUFFER\<close> words if \<open>need\<close> exceeds the log size, then the
  \<open>SET_MEM_TABLE\<close> of the mutated table, then a \<open>SET_LOG_BASE\<close> for a log of \<open>need\<close> words
  if the log size now exceeds \<open>need + VHOST_LOG_BUFFER\<close>; nothing else, in this order.
\<close>

theorem vhost_set_memory_log_order:
  assumes "started dev" and "log_enabled dev"
    and "vhost_set_memory e k dev w sec add = Inr (dev', w')"
  shows "if set_memory_no_change dev sec add then dev' = dev \<and> w' = w
    else
      set_memory_table (mem dev) (add \<and> \<not> mr_logging sec) (offset_within_address_space sec)
        (section_size sec) (mr_ram_ptr sec + offset_within_region sec) = Some (mem dev') \<and>
      (let need = vhost_get_log_size k dev';
           grow = log_size dev < need;
           mid = (if grow then need + VHOST_LOG_BUFFER else log_size dev);
           shrink = mid > need + VHOST_LOG_BUFFER
       in trace w' = trace w @ (if grow then [SET_LOG_BASE (need + VHOST_LOG_BUFFER)] else []) @
                     [SET_MEM_TABLE (mem dev')] @ (if shrink then [SET_LOG_BASE need] else []) \<and>
          log_size dev' = (if shrink then need else mid))"
proof (cases "set_memory_no_change dev sec add")
  case True
  with assms(3) have "dev' = dev \<and> w' = w"
    by (auto simp: vhost_set_memory_def set_memory_no_change_def Let_def split: if_splits)
  with True show ?thesis by simp
next
  case False
  let ?add = "add \<and> \<not> mr_logging sec"
  have ad: "(if mr_logging sec then False else add) = ?add" by simp
  from False assms obtain regions where
    t: "set_memory_table (mem dev) ?add (offset_within_address_space sec)
          (section_size sec) (mr_ram_ptr sec + offset_within_region sec) = Some regions"
    and p: "set_memory_push e k (dev\<lparr>mem := regions\<rparr>) w = Inr (dev', w')"
    unfolding vhost_set_memory_def set_memory_no_change_def Let_def ad
    by (auto split: if_splits option.splits)
  let ?dev1 = "dev\<lparr>mem := regions\<rparr>"
  from assms(2) have en: "log_enabled ?dev1" by simp
  note T = set_memory_push_trace[OF en p]
  from T have m: "mem dev' = regions" "vqs dev' = vqs ?dev1" by simp_all
  then have "vhost_get_log_size k ?dev1 = vhost_get_log_size k dev'"
    by (intro get_log_size_cong) simp_all
  with T t m False show ?thesis by (simp add: Let_def)
qed

lemma high_section_add_run:
  "vhost_set_memory no_errors lp64_consts one_region_dev quiet_world high_section True =
     Inr (two_region_dev,
          quiet_world\<lparr>trace := [SET_LOG_BASE 1537,
                                 SET_MEM_TABLE [low_region, high_region]]\<rparr>)"
  by code_simp

lemma high_section_del_run:
  "vhost_set_memory no_errors lp64_consts two_region_dev quiet_world high_section False =
     Inr (one_region_dev,
          quiet_world\<lparr>trace := [SET_MEM_TABLE [low_region], SET_LOG_BASE 1]\<rparr>)"
  by code_simp

lemma low_section_add_run:
  "vhost_set_memory no_errors lp64_consts two_region_dev quiet_world low_section True =
     Inr (two_region_dev, quiet_world)"
  by code_simp

text \<open>
  C1 at a concrete input. One region and one section cover guest addresses \<open>0\<close> to
  \<open>0x7ffff\<close> (two log words); bit \<open>0\<close> of the second word is set, so the page written
  is the one at guest address \<open>0x40000\<close>, at offset \<open>0x40000\<close> of the region. The code
  clears the word and reports the dirty page at offset \<open>0\<close>: \<open>addr\<close>, which it keeps up
  to date, never enters the address it reports.
\<close>

theorem sync_reports_bit_offset_only:
  "map_sum id (\<lambda>(dev', w'). (log dev', dirty w'))
     (vhost_log_sync lp64_consts two_chunk_dev quiet_world ram_section) =
   Inr ([0, 0], [(0, 0x1000)])"
  by code_simp

theorem vhost_set_memory_log_order_witness:
  "started one_region_dev \<and> log_enabled one_region_dev \<and>
   started two_region_dev \<and> log_enabled two_region_dev \<and>
   \<not> set_memory_no_change one_region_dev high_section True \<and>
   vhost_set_memory no_errors lp64_consts one_region_dev quiet_world high_section True =
     Inr (two_region_dev,
          quiet_world\<lparr>trace := [SET_LOG_BASE 1537,
                                 SET_MEM_TABLE [low_region, high_region]]\<rparr>) \<and>
   set_memory_table [low_region] True 0x10000000 0x1000 0x78000000 =
     Some [low_region, high_region] \<and>
   vhost_get_log_size lp64_consts two_region_dev = 1025 \<and>
   \<not> set_memory_no_change two_region_dev high_section False \<and>
   vhost_set_memory no_errors lp64_consts two_region_dev quiet_world high_section False =
     Inr (one_region_dev,
          quiet_world\<lparr>trace := [SET_MEM_TABLE [low_region], SET_LOG_BASE 1]\<rparr>) \<and>
   set_memory_table [low_region, high_region] False 0x10000000 0x1000 0x78000000 =
     Some [low_region] \<and>
   vhost_get_log_size lp64_consts one_region_dev = 1 \<and>
   set_memory_no_change two_region_dev low_section True \<and>
   vhost_set_memory no_errors lp64_consts two_region_dev quiet_world low_section True =
     Inr (two_region_dev, quiet_world)"
proof -
  have 1: "started one_region_dev" "log_enabled one_region_dev"
    "started two_region_dev" "log_enabled two_region_dev"
    by (simp_all add: two_region_dev_def one_region_dev_def)
  have n: "\<not> set_memory_no_change one_region_dev high_section True"
    "\<not> set_memory_no_change two_region_dev high_section False"
    "set_memory_no_change two_region_dev low_section True"
    by code_simp+
  have g: "vhost_get_log_size lp64_consts two_region_dev = 1025"
    "vhost_get_log_size lp64_consts one_region_dev = 1"
    by code_simp+
  have f: "offset_within_address_space high_section = 0x10000000"
    "section_size high_section = 0x1000"
    "mr_ram_ptr high_section + offset_within_region high_section = 0x78000000"
    "mr_logging high_section = False"
    "mem one_region_dev = [low_region]" "mem two_region_dev = [low_region, high_region]"
    by (simp_all add: high_section_def one_region_dev_def two_region_dev_def)
  from vhost_set_memory_log_order[OF 1(1,2) high_section_add_run] n(1)
  have a: "set_memory_table [low_region] True 0x10000000 0x1000 0x78000000 =
     Some [low_region, high_region]"
    by (simp add: f)
  from vhost_set_memory_log_order[OF 1(3,4) high_section_del_run] n(2)
  have b: "set_memory_table [low_region, high_region] False 0x10000000 0x1000 0x78000000 =
     Some [low_region]"
    by (simp add: f)
  from 1 n g a b high_section_add_run high_section_del_run low_section_add_run
  show ?thesis by (simp only: simp_thms)
qed

lemma demo_table_ok: "table_ok demo_table"
proof -
  have "table_ok []" by (simp add: table_ok_def table_inv_def merge_maximal_def)
  from run_ops_table_ok[OF this demo_ops_op_ok demo_ops_run] show ?thesis .
qed

lemma merged_run:
  "vhost_dev_assign_memory demo_table 0x5000 0x3000 0x80005000 = Some merged_table"
  by code_simp

theorem assign_unassign_round_trip_witness:
  "vhost_dev_assign_memory demo_table 0x5000 0x3000 0x80005000 = Some merged_table \<and>
   (\<exists>rt2. vhost_dev_unassign_memory merged_table 0x5000 0x3000 = Some rt2 \<and>
          mset rt2 = mset demo_table)"
proof -
  have s: "range_ok 0x5000 0x3000" by (simp add: range_ok_def range_get_last_def)
  have h: "(0x80005000 :: u64) \<le> 0x80005000 + 0x3000" by simp
  have f: "\<forall>r\<in>set demo_table.
      \<not> ranges_overlap (guest_phys_addr r) (memory_size r) 0x5000 0x3000"
    by (simp add: demo_table_def ranges_overlap_def range_get_last_def)
  from assign_unassign_round_trip[OF demo_table_ok s h f merged_run] merged_run
  show ?thesis by simp
qed

text \<open>
  C8. On a table whose regions are nonempty and do not wrap, and for such a range, a
  second unassign of the same range returns the table of the first unchanged (the same
  regions in the same order); so the remove path of \<^verbatim>\<open>vhost_set_memory\<close>, which unassigns
  twice, leaves the table of a single unassign.
\<close>

theorem unassign_idempotent:
  assumes "\<forall>r\<in>set rt. gpa_ok r" and "range_ok s l"
    and "vhost_dev_unassign_memory rt s l = Some rt'"
  shows "vhost_dev_unassign_memory rt' s l = Some rt' \<and>
         set_memory_table rt False s l ram = Some rt'"
proof -
  from unassign_clears(2)[OF assms]
  have "\<forall>p\<in>set rt'. \<not> ranges_overlap (guest_phys_addr p) (memory_size p) s l" by blast
  then have "vhost_dev_unassign_memory rt' s l = Some rt'" by (rule unassign_no_overlap)
  with assms(3) show ?thesis by (simp add: set_memory_table_def)
qed

lemma demo_table_gpa_ok: "\<forall>r\<in>set demo_table. gpa_ok r"
  using demo_table_ok by (simp add: table_ok_def table_inv_def)

lemma demo_unassign_run:
  "vhost_dev_unassign_memory demo_table 0x2000 0x7000 =
     Some [\<lparr>guest_phys_addr = 0, memory_size = 0x2000, userspace_addr = 0x80000000\<rparr>,
           \<lparr>guest_phys_addr = 0x9000, memory_size = 0x7000, userspace_addr = 0x80009000\<rparr>]"
  by code_simp

theorem unassign_idempotent_witness:
  "vhost_dev_unassign_memory demo_table 0x2000 0x7000 =
     Some [\<lparr>guest_phys_addr = 0, memory_size = 0x2000, userspace_addr = 0x80000000\<rparr>,
           \<lparr>guest_phys_addr = 0x9000, memory_size = 0x7000, userspace_addr = 0x80009000\<rparr>] \<and>
   vhost_dev_unassign_memory
     [\<lparr>guest_phys_addr = 0, memory_size = 0x2000, userspace_addr = 0x80000000\<rparr>,
      \<lparr>guest_phys_addr = 0x9000, memory_size = 0x7000, userspace_addr = 0x80009000\<rparr>]
     0x2000 0x7000 =
     Some [\<lparr>guest_phys_addr = 0, memory_size = 0x2000, userspace_addr = 0x80000000\<rparr>,
           \<lparr>guest_phys_addr = 0x9000, memory_size = 0x7000, userspace_addr = 0x80009000\<rparr>] \<and>
   set_memory_table demo_table False 0x2000 0x7000 0 =
     Some [\<lparr>guest_phys_addr = 0, memory_size = 0x2000, userspace_addr = 0x80000000\<rparr>,
           \<lparr>guest_phys_addr = 0x9000, memory_size = 0x7000, userspace_addr = 0x80009000\<rparr>]"
proof -
  have s: "range_ok 0x2000 0x7000" by (simp add: range_ok_def range_get_last_def)
  from unassign_idempotent[OF demo_table_gpa_ok s demo_unassign_run, of 0] demo_unassign_run
  show ?thesis by simp
qed

subsection \<open>The log flag toggle\<close>

lemma ioctl_ok:
  "ioctl_errno e (length (trace w)) = 0 \<Longrightarrow>
   ioctl e w c = (accel_apply c (w\<lparr>trace := trace w @ [c]\<rparr>), 0, 0)"
  by (simp add: ioctl_def Let_def)

lemma ioctl_cases:
  assumes "ioctl e w c = (w', r, er)"
  shows "trace w' = trace w @ [c]" and "dirty w' = dirty w"
    and "r < 0 \<Longrightarrow> accel_features w' = accel_features w \<and>
                  accel_vring_log w' = accel_vring_log w \<and> 0 < er"
    and "\<not> r < 0 \<Longrightarrow> r = 0 \<and> w' = accel_apply c (w\<lparr>trace := trace w @ [c]\<rparr>)"
  using assms by (cases c; auto simp: ioctl_def Let_def split: if_splits)+

lemma set_addr_cases:
  assumes "vhost_virtqueue_set_addr e w i b = (w', r)"
  shows "trace w' = trace w @ [SET_VRING_ADDR i b]"
    and "accel_features w' = accel_features w"
    and "r < 0 \<Longrightarrow> accel_vring_log w' = accel_vring_log w"
    and "\<not> r < 0 \<Longrightarrow> r = 0 \<and> accel_vring_log w' = (accel_vring_log w)[i := b]"
proof -
  obtain w1 r1 er where i: "ioctl e w (SET_VRING_ADDR i b) = (w1, r1, er)" by (metis prod_cases3)
  note C = ioctl_cases[OF i]
  from assms i have w': "w' = w1" and r: "r = (if r1 < 0 then - er else 0)"
    by (auto simp: vhost_virtqueue_set_addr_def split: if_splits)
  from C(1) w' show "trace w' = trace w @ [SET_VRING_ADDR i b]" by simp
  show "accel_features w' = accel_features w"
  proof (cases "r1 < 0")
    case True
    with C(3) w' show ?thesis by simp
  next
    case False
    with C(4) w' show ?thesis by simp
  qed
  show "accel_vring_log w' = accel_vring_log w" if "r < 0"
  proof -
    from that r have "r1 < 0" by (auto split: if_splits)
    with C(3) w' show ?thesis by simp
  qed
  show "r = 0 \<and> accel_vring_log w' = (accel_vring_log w)[i := b]" if "\<not> r < 0"
  proof -
    from that r C(3) have n: "\<not> r1 < 0" by (auto split: if_splits)
    with C(4) w' r show ?thesis by simp
  qed
qed

lemma set_features_cases:
  assumes "vhost_dev_set_features e k dev w b = (w', r)"
  shows "trace w' = trace w @ [SET_FEATURES (if b then acked_features dev OR push_bit (F_LOG_ALL k) 1
                                           else acked_features dev)]"
    and "accel_vring_log w' = accel_vring_log w"
    and "r < 0 \<Longrightarrow> accel_features w' = accel_features w"
    and "\<not> r < 0 \<Longrightarrow> r = 0 \<and> accel_features w' =
           (if b then acked_features dev OR push_bit (F_LOG_ALL k) 1 else acked_features dev)"
proof -
  let ?f = "if b then acked_features dev OR push_bit (F_LOG_ALL k) 1 else acked_features dev"
  obtain w1 r1 er where i: "ioctl e w (SET_FEATURES ?f) = (w1, r1, er)" by (metis prod_cases3)
  note C = ioctl_cases[OF i]
  from assms i have w': "w' = w1" and r: "r = (if r1 < 0 then - er else 0)"
    by (auto simp: vhost_dev_set_features_def Let_def split: if_splits)
  from C(1) w' show "trace w' = trace w @ [SET_FEATURES ?f]" by simp
  show "accel_vring_log w' = accel_vring_log w"
  proof (cases "r1 < 0")
    case True
    with C(3) w' show ?thesis by simp
  next
    case False
    with C(4) w' show ?thesis by simp
  qed
  show "accel_features w' = accel_features w" if "r < 0"
  proof -
    from that r have "r1 < 0" by (auto split: if_splits)
    with C(3) w' show ?thesis by simp
  qed
  show "r = 0 \<and> accel_features w' = ?f" if "\<not> r < 0"
  proof -
    from that r C(3) have n: "\<not> r1 < 0" by (auto split: if_splits)
    with C(4) w' r show ?thesis by simp
  qed
qed

lemma set_addr_ok:
  assumes "\<forall>n. ioctl_errno e n = 0"
  shows "\<exists>w'. vhost_virtqueue_set_addr e w i b = (w', 0) \<and>
              trace w' = trace w @ [SET_VRING_ADDR i b]"
  using assms by (simp add: vhost_virtqueue_set_addr_def ioctl_ok)

lemma set_log_vqs_ok:
  assumes "\<forall>n. ioctl_errno e n = 0"
  shows "\<exists>w'. set_log_vqs e b w is = (w', None) \<and>
              trace w' = trace w @ map (\<lambda>i. SET_VRING_ADDR i b) is"
proof (induction "is" arbitrary: w)
  case Nil
  then show ?case by simp
next
  case (Cons i "is")
  from set_addr_ok[OF assms, of w i b] obtain w1 where
    1: "vhost_virtqueue_set_addr e w i b = (w1, 0)" "trace w1 = trace w @ [SET_VRING_ADDR i b]"
    by blast
  from Cons[of w1] obtain w' where
    2: "set_log_vqs e b w1 is = (w', None)"
       "trace w' = trace w1 @ map (\<lambda>i. SET_VRING_ADDR i b) is" by blast
  from 1 2 show ?case by simp
qed

lemma set_features_ok:
  assumes "\<forall>n. ioctl_errno e n = 0"
  shows "\<exists>w'. vhost_dev_set_features e k dev w b = (w', 0) \<and>
              trace w' = trace w @ [SET_FEATURES (log_features k dev b)]"
  using assms by (simp add: vhost_dev_set_features_def ioctl_ok Let_def log_features_def)

lemma set_log_ok:
  assumes "\<forall>n. ioctl_errno e n = 0"
  shows "\<exists>w'. vhost_dev_set_log e k dev w b = Inr (w', 0) \<and>
              trace w' = trace w @ SET_FEATURES (log_features k dev b) #
                           map (\<lambda>i. SET_VRING_ADDR i b) [0..<length (vqs dev)]"
proof -
  from set_features_ok[OF assms, of k dev w b] obtain w1 where
    1: "vhost_dev_set_features e k dev w b = (w1, 0)"
       "trace w1 = trace w @ [SET_FEATURES (log_features k dev b)]" by blast
  from set_log_vqs_ok[OF assms, of b w1 "[0..<length (vqs dev)]"] obtain w2 where
    2: "set_log_vqs e b w1 [0..<length (vqs dev)] = (w2, None)"
       "trace w2 = trace w1 @ map (\<lambda>i. SET_VRING_ADDR i b) [0..<length (vqs dev)]" by blast
  from 1 2 show ?thesis by (simp add: vhost_dev_set_log_def)
qed

lemma sync_sections_off:
  "\<not> log_enabled dev \<or> \<not> started dev \<Longrightarrow> sync_sections k s e dev w secs = Inr (dev, w)"
  by (induction secs) (auto simp: vhost_sync_dirty_bitmap_def)

lemma log_resize_off:
  assumes "\<forall>n. ioctl_errno e n = 0" and "\<not> log_enabled dev"
  shows "\<exists>w'. vhost_dev_log_resize e k dev w sz =
                Inr (dev\<lparr>log := replicate (unat sz) 0, log_size := sz\<rparr>, w') \<and>
              trace w' = trace w @ [SET_LOG_BASE sz]"
  using assms by (simp add: vhost_dev_log_resize_def ioctl_ok sync_sections_off Let_def)

text \<open>
  C5, as the code has it. On a started device whose control channel accepts every
  command: enabling the log issues \<open>SET_LOG_BASE\<close> for a log of \<open>vhost_get_log_size\<close> words,
  then \<open>SET_FEATURES\<close> with the \<open>F_LOG_ALL\<close> bit, then \<open>SET_VRING_ADDR\<close> with the log flag for
  each queue in index order; disabling it issues \<open>SET_FEATURES\<close> without the bit, then
  \<open>SET_VRING_ADDR\<close> without the flag for each queue in index order, and frees the log
  without a \<open>SET_LOG_BASE\<close>.
\<close>

theorem migration_log_command_order:
  assumes run: "started dev" and ok: "\<forall>n. ioctl_errno e n = 0"
  shows "(\<not> log_enabled dev \<longrightarrow>
           (\<exists>dev' w'. vhost_migration_log e k dev w True = Inr (dev', w', 0) \<and>
              log_enabled dev' \<and> log_size dev' = vhost_get_log_size k dev \<and>
              trace w' = trace w @ SET_LOG_BASE (vhost_get_log_size k dev) #
                SET_FEATURES (acked_features dev OR push_bit (F_LOG_ALL k) 1) #
                map (\<lambda>i. SET_VRING_ADDR i True) [0..<length (vqs dev)])) \<and>
         (log_enabled dev \<longrightarrow>
           (\<exists>dev' w'. vhost_migration_log e k dev w False = Inr (dev', w', 0) \<and>
              \<not> log_enabled dev' \<and> log dev' = [] \<and> log_size dev' = 0 \<and>
              trace w' = trace w @ SET_FEATURES (acked_features dev) #
                map (\<lambda>i. SET_VRING_ADDR i False) [0..<length (vqs dev)]))"
proof (intro conjI impI)
  assume off: "\<not> log_enabled dev"
  let ?sz = "vhost_get_log_size k dev"
  let ?dev1 = "dev\<lparr>log := replicate (unat ?sz) 0, log_size := ?sz\<rparr>"
  from log_resize_off[OF ok off, of k w ?sz] obtain w1 where
    1: "vhost_dev_log_resize e k dev w ?sz = Inr (?dev1, w1)"
       "trace w1 = trace w @ [SET_LOG_BASE ?sz]" by blast
  from set_log_ok[OF ok, of k ?dev1 w1 True] obtain w2 where
    2: "vhost_dev_set_log e k ?dev1 w1 True = Inr (w2, 0)"
       "trace w2 = trace w1 @ SET_FEATURES (log_features k ?dev1 True) #
                   map (\<lambda>i. SET_VRING_ADDR i True) [0..<length (vqs ?dev1)]" by blast
  from run off 1 2
  have "vhost_migration_log e k dev w True = Inr (?dev1\<lparr>log_enabled := True\<rparr>, w2, 0)"
    by (simp add: vhost_migration_log_def)
  moreover from 1 2 have "trace w2 = trace w @ SET_LOG_BASE ?sz #
                SET_FEATURES (acked_features dev OR push_bit (F_LOG_ALL k) 1) #
                map (\<lambda>i. SET_VRING_ADDR i True) [0..<length (vqs dev)]"
    by (simp add: log_features_def)
  ultimately show "\<exists>dev' w'. vhost_migration_log e k dev w True = Inr (dev', w', 0) \<and>
              log_enabled dev' \<and> log_size dev' = ?sz \<and>
              trace w' = trace w @ SET_LOG_BASE ?sz #
                SET_FEATURES (acked_features dev OR push_bit (F_LOG_ALL k) 1) #
                map (\<lambda>i. SET_VRING_ADDR i True) [0..<length (vqs dev)]"
    by (intro exI[of _ "?dev1\<lparr>log_enabled := True\<rparr>"] exI[of _ w2]) simp
next
  assume on: "log_enabled dev"
  from set_log_ok[OF ok, of k dev w False] obtain w1 where
    1: "vhost_dev_set_log e k dev w False = Inr (w1, 0)"
       "trace w1 = trace w @ SET_FEATURES (log_features k dev False) #
                   map (\<lambda>i. SET_VRING_ADDR i False) [0..<length (vqs dev)]" by blast
  from run on 1
  have "vhost_migration_log e k dev w False =
          Inr (dev\<lparr>log := [], log_size := 0, log_enabled := False\<rparr>, w1, 0)"
    by (simp add: vhost_migration_log_def)
  with 1(2) show "\<exists>dev' w'. vhost_migration_log e k dev w False = Inr (dev', w', 0) \<and>
              \<not> log_enabled dev' \<and> log dev' = [] \<and> log_size dev' = 0 \<and>
              trace w' = trace w @ SET_FEATURES (acked_features dev) #
                map (\<lambda>i. SET_VRING_ADDR i False) [0..<length (vqs dev)]"
    by (intro exI[of _ "dev\<lparr>log := [], log_size := 0, log_enabled := False\<rparr>"] exI[of _ w1])
       (simp add: log_features_def)
qed

lemma no_errors_ok: "\<forall>n. ioctl_errno no_errors n = 0"
  by (simp add: no_errors_def)

theorem migration_log_command_order_witness:
  "started two_queue_dev \<and> \<not> log_enabled two_queue_dev \<and>
   started two_queue_logged \<and> log_enabled two_queue_logged \<and>
   list_all (\<lambda>n. ioctl_errno no_errors n = 0) [0, 1, 2, 3] \<and>
   migration_trace (vhost_migration_log no_errors lp64_consts two_queue_dev quiet_world True) =
     [SET_LOG_BASE 2, SET_FEATURES 0x4000001, SET_VRING_ADDR 0 True, SET_VRING_ADDR 1 True] \<and>
   migration_trace (vhost_migration_log no_errors lp64_consts two_queue_logged quiet_world False) =
     [SET_FEATURES 1, SET_VRING_ADDR 0 False, SET_VRING_ADDR 1 False]"
proof -
  have a: "started two_queue_dev" "\<not> log_enabled two_queue_dev"
    "started two_queue_logged" "log_enabled two_queue_logged"
    by (simp_all add: two_queue_dev_def two_queue_logged_def)
  note E = migration_log_command_order[OF a(1) no_errors_ok, of lp64_consts quiet_world,
      THEN conjunct1, rule_format, OF a(2)]
  note D = migration_log_command_order[OF a(3) no_errors_ok, of lp64_consts quiet_world,
      THEN conjunct2, rule_format, OF a(4)]
  have sz: "vhost_get_log_size lp64_consts two_queue_dev = 2" by code_simp
  have f: "acked_features two_queue_dev OR push_bit (F_LOG_ALL lp64_consts) 1 = 0x4000001"
    "acked_features two_queue_logged = 1"
    "[0..<length (vqs two_queue_dev)] = [0, 1]" "[0..<length (vqs two_queue_logged)] = [0, 1]"
    "trace quiet_world = []"
    by (simp_all add: two_queue_dev_def two_queue_logged_def lp64_consts_def quiet_world_def
        upt_rec)
  from E[unfolded sz f] have "migration_trace (vhost_migration_log no_errors lp64_consts
      two_queue_dev quiet_world True) =
     [SET_LOG_BASE 2, SET_FEATURES 0x4000001, SET_VRING_ADDR 0 True, SET_VRING_ADDR 1 True]"
    by (auto simp: migration_trace_def)
  moreover from D[unfolded f] have "migration_trace (vhost_migration_log no_errors lp64_consts
      two_queue_logged quiet_world False) =
     [SET_FEATURES 1, SET_VRING_ADDR 0 False, SET_VRING_ADDR 1 False]"
    by (auto simp: migration_trace_def)
  ultimately show ?thesis using a by (simp add: no_errors_def)
qed

text \<open>
  The claim as stated fails on a running device with two queues: the disable order
  \<open>SET_FEATURES\<close>, \<open>SET_VRING_ADDR\<close>, \<open>SET_VRING_ADDR\<close> is not the enable order
  \<open>SET_LOG_BASE\<close>, \<open>SET_FEATURES\<close>, \<open>SET_VRING_ADDR\<close>, \<open>SET_VRING_ADDR\<close> reversed.
\<close>

theorem migration_log_disable_order_counterexample:
  "map kind_of (migration_trace
      (vhost_migration_log no_errors lp64_consts two_queue_dev quiet_world True)) =
     [LogBase, Features, VringAddr, VringAddr] \<and>
   map kind_of (migration_trace
      (vhost_migration_log no_errors lp64_consts two_queue_logged quiet_world False)) =
     [Features, VringAddr, VringAddr] \<and>
   map kind_of (migration_trace
      (vhost_migration_log no_errors lp64_consts two_queue_logged quiet_world False)) \<noteq>
   rev (map kind_of (migration_trace
      (vhost_migration_log no_errors lp64_consts two_queue_dev quiet_world True)))"
  by code_simp

lemma set_addr_eq:
  "vhost_virtqueue_set_addr e w i b =
     (if ioctl_errno e (length (trace w)) = 0
      then (w\<lparr>trace := trace w @ [SET_VRING_ADDR i b],
               accel_vring_log := (accel_vring_log w)[i := b]\<rparr>, 0)
      else (w\<lparr>trace := trace w @ [SET_VRING_ADDR i b]\<rparr>,
            - int (ioctl_errno e (length (trace w)))))"
  by (simp add: vhost_virtqueue_set_addr_def ioctl_def Let_def)

lemma set_features_eq:
  "vhost_dev_set_features e k dev w b =
     (if ioctl_errno e (length (trace w)) = 0
      then (w\<lparr>trace := trace w @ [SET_FEATURES (log_features k dev b)],
               accel_features := log_features k dev b\<rparr>, 0)
      else (w\<lparr>trace := trace w @ [SET_FEATURES (log_features k dev b)]\<rparr>,
            - int (ioctl_errno e (length (trace w)))))"
  by (simp add: vhost_dev_set_features_def ioctl_def Let_def log_features_def)

lemma fold_update_length: "length (fold (\<lambda>j l. l[j := v]) js l) = length l"
  by (induction js arbitrary: l) simp_all

lemma fold_update_nth:
  "p < length l \<Longrightarrow>
   fold (\<lambda>j l. l[j := v]) js l ! p = (if p \<in> set js then v else l ! p)"
proof (induction js arbitrary: l)
  case Nil
  then show ?case by simp
next
  case (Cons j js)
  from Cons.prems have "p < length (l[j := v])" by simp
  from Cons.IH[OF this] Cons.prems show ?case by (auto simp: nth_list_update)
qed

lemma set_log_vqs_fail:
  assumes "set_log_vqs e b w is = (w2, Some (i, r))"
  shows "r < 0 \<and> (\<exists>ps rest. is = ps @ i # rest \<and> accel_features w2 = accel_features w \<and>
           accel_vring_log w2 = fold (\<lambda>j l. l[j := b]) ps (accel_vring_log w) \<and>
           trace w2 = trace w @ map (\<lambda>j. SET_VRING_ADDR j b) (ps @ [i]))"
  using assms
proof (induction "is" arbitrary: w)
  case Nil
  then show ?case by simp
next
  case (Cons j js)
  obtain w1 t where st: "vhost_virtqueue_set_addr e w j b = (w1, t)" by (cases "vhost_virtqueue_set_addr e w j b")
  note c = set_addr_cases[OF st]
  show ?case
  proof (cases "t < 0")
    case True
    with Cons.prems st have eq: "w2 = w1" "i = j" "r = t" by simp_all
    from True c eq have "j # js = [] @ i # js \<and> accel_features w2 = accel_features w \<and>
           accel_vring_log w2 = fold (\<lambda>j l. l[j := b]) [] (accel_vring_log w) \<and>
           trace w2 = trace w @ map (\<lambda>j. SET_VRING_ADDR j b) ([] @ [i])" by simp
    with True eq show ?thesis by blast
  next
    case False
    with Cons.prems st have "set_log_vqs e b w1 js = (w2, Some (i, r))" by simp
    from Cons.IH[OF this] obtain ps rest where
      r: "r < 0" and s: "js = ps @ i # rest" "accel_features w2 = accel_features w1"
        "accel_vring_log w2 = fold (\<lambda>j l. l[j := b]) ps (accel_vring_log w1)"
        "trace w2 = trace w1 @ map (\<lambda>j. SET_VRING_ADDR j b) (ps @ [i])" by blast
    from False c s have "j # js = (j # ps) @ i # rest \<and> accel_features w2 = accel_features w \<and>
           accel_vring_log w2 = fold (\<lambda>j l. l[j := b]) (j # ps) (accel_vring_log w) \<and>
           trace w2 = trace w @ map (\<lambda>j. SET_VRING_ADDR j b) ((j # ps) @ [i])" by simp
    with r show ?thesis by blast
  qed
qed

lemma upt_split:
  assumes "[0..<n] = ps @ i # rest"
  shows "i < n \<and> ps = [0..<i]"
proof -
  from assms have "length [0..<n] = length (ps @ i # rest)" by (rule arg_cong)
  then have len: "length ps < n" by simp
  from assms have "[0..<n] ! length ps = i" by (simp add: nth_append)
  with len have i: "i = length ps" by simp
  from assms have "ps = take (length ps) [0..<n]" by simp
  also from len have "\<dots> = [0..<length ps]" by (simp add: take_upt)
  finally show ?thesis using i len by simp
qed

lemma set_log_unwind_eq:
  "set_log_unwind e old w js =
     (if list_all (\<lambda>n. ioctl_errno e n = 0) [length (trace w)..<length (trace w) + length js]
      then Inr (w\<lparr>trace := trace w @ map (\<lambda>j. SET_VRING_ADDR j old) js,
                  accel_vring_log := fold (\<lambda>j l. l[j := old]) js (accel_vring_log w)\<rparr>)
      else Inl Assert_failed)"
proof (induction js arbitrary: w)
  case Nil
  then show ?case by simp
next
  case (Cons j js)
  let ?n = "length (trace w)"
  have up: "[?n..<Suc (?n + length js)] = ?n # [Suc ?n..<Suc (?n + length js)]"
    by (rule upt_conv_Cons) simp
  show ?case
  proof (cases "ioctl_errno e ?n = 0")
    case True
    let ?w1 = "w\<lparr>trace := trace w @ [SET_VRING_ADDR j old],
               accel_vring_log := (accel_vring_log w)[j := old]\<rparr>"
    from True have "set_log_unwind e old w (j # js) = set_log_unwind e old ?w1 js"
      by (simp add: set_addr_eq)
    with Cons.IH[of ?w1] True show ?thesis by (simp add: up del: upt_Suc)
  next
    case False
    then show ?thesis by (simp add: set_addr_eq up del: upt_Suc)
  qed
qed

lemma flags_restored:
  assumes "i < n"
  shows "fold (\<lambda>j l. l[j := old]) (rev [0..<Suc i])
           (fold (\<lambda>j l. l[j := b]) [0..<i] (replicate n old)) = replicate n old"
proof (rule nth_equalityI)
  show "length (fold (\<lambda>j l. l[j := old]) (rev [0..<Suc i])
           (fold (\<lambda>j l. l[j := b]) [0..<i] (replicate n old))) = length (replicate n old)"
    by (simp add: fold_update_length)
next
  fix p
  assume "p < length (fold (\<lambda>j l. l[j := old]) (rev [0..<Suc i])
           (fold (\<lambda>j l. l[j := b]) [0..<i] (replicate n old)))"
  then have p: "p < n" by (simp add: fold_update_length)
  then have p1: "p < length (fold (\<lambda>j l. l[j := b]) [0..<i] (replicate n old))"
    and p2: "p < length (replicate n old)" by (simp_all add: fold_update_length)
  show "fold (\<lambda>j l. l[j := old]) (rev [0..<Suc i])
           (fold (\<lambda>j l. l[j := b]) [0..<i] (replicate n old)) ! p = replicate n old ! p"
    unfolding fold_update_nth[OF p1] fold_update_nth[OF p2] using p by auto
qed

text \<open>
  C9. The device is running with the accelerator configured from \<open>log_enabled\<close>: the
  feature bits carry the log bit exactly when \<open>log_enabled\<close> holds and every queue has
  the log flag \<open>log_enabled\<close>. When \<open>vhost_dev_set_log\<close> has pushed the features and the
  address push of queue \<open>i\<close> returns \<open>r < 0\<close>, the unwind pushes the prior flag to the
  queues \<open>i\<close> down to \<open>0\<close> and then the prior features, the call returns \<open>r\<close>, and the
  features and all queue log flags of the accelerator are what they were before the
  call. The unwind pushes are asserted: the assertion fails exactly when the accelerator
  rejects one of these \<open>i + 2\<close> commands.
\<close>

theorem set_log_failure_restores:
  assumes feat: "accel_features w = log_features k dev (log_enabled dev)"
    and flags: "accel_vring_log w = replicate (length (vqs dev)) (log_enabled dev)"
    and push: "vhost_dev_set_features e k dev w b = (w1, r0)" "\<not> r0 < 0"
    and fail: "set_log_vqs e b w1 [0..<length (vqs dev)] = (w2, Some (i, r))"
  shows "r < 0 \<and> i < length (vqs dev) \<and>
    (vhost_dev_set_log e k dev w b = Inl Assert_failed \<or>
     (\<exists>w'. vhost_dev_set_log e k dev w b = Inr (w', r) \<and>
        accel_features w' = accel_features w \<and> accel_vring_log w' = accel_vring_log w \<and>
        trace w' = trace w2 @ map (\<lambda>j. SET_VRING_ADDR j (log_enabled dev)) (rev [0..<Suc i]) @
                     [SET_FEATURES (log_features k dev (log_enabled dev))])) \<and>
    ((vhost_dev_set_log e k dev w b = Inl Assert_failed) =
     (\<not> list_all (\<lambda>n. ioctl_errno e n = 0)
          [length (trace w2)..<length (trace w2) + i + 2]))"
proof -
  let ?n = "length (vqs dev)"
  let ?old = "log_enabled dev"
  let ?m = "length (trace w2)"
  from set_log_vqs_fail[OF fail] obtain ps rest where
    r: "r < 0" and sp: "[0..<?n] = ps @ i # rest" and
    f2: "accel_features w2 = accel_features w1" and
    l2: "accel_vring_log w2 = fold (\<lambda>j l. l[j := b]) ps (accel_vring_log w1)" by blast
  from upt_split[OF sp] have i: "i < ?n" and ps: "ps = [0..<i]" by simp_all
  have l1: "accel_vring_log w1 = accel_vring_log w"
    by (rule set_features_cases(2)[OF push(1)])
  let ?js = "rev [0..<Suc i]"
  let ?w3 = "w2\<lparr>trace := trace w2 @ map (\<lambda>j. SET_VRING_ADDR j ?old) ?js,
                accel_vring_log := fold (\<lambda>j l. l[j := ?old]) ?js (accel_vring_log w2)\<rparr>"
  let ?w4 = "?w3\<lparr>trace := trace ?w3 @ [SET_FEATURES (log_features k dev ?old)],
                  accel_features := log_features k dev ?old\<rparr>"
  have l3: "accel_vring_log ?w3 = accel_vring_log w"
    using flags_restored[OF i, of ?old b] by (simp add: l2 l1 ps flags)
  have len3: "length (trace ?w3) = ?m + Suc i" by simp
  have run: "vhost_dev_set_log e k dev w b =
      (case set_log_unwind e ?old w2 ?js of
         Inl f \<Rightarrow> Inl f
       | Inr w3 \<Rightarrow>
           (case vhost_dev_set_features e k dev w3 ?old of
              (w4, t) \<Rightarrow> if t < 0 then Inl Assert_failed else Inr (w4, r)))"
    using push fail by (simp add: vhost_dev_set_log_def)
  define A where "A = list_all (\<lambda>n. ioctl_errno e n = 0) [?m..<?m + Suc i]"
  define B where "B = list_all (\<lambda>n. ioctl_errno e n = 0) [?m..<?m + i + 2]"
  have "?m + i + 2 = Suc (?m + Suc i)" by simp
  then have "[?m..<?m + i + 2] = [?m..<?m + Suc i] @ [?m + Suc i]"
    by (simp only: upt_Suc_append le_add1)
  then have B: "B = (A \<and> ioctl_errno e (?m + Suc i) = 0)"
    unfolding A_def B_def by (simp del: upt_Suc)
  have "length ?js = Suc i" by simp
  with set_log_unwind_eq[of e ?old w2 ?js]
  have unw: "set_log_unwind e ?old w2 ?js = (if A then Inr ?w3 else Inl Assert_failed)"
    unfolding A_def by (simp only:)
  have goal: "r < 0 \<and> i < length (vqs dev) \<and>
    (vhost_dev_set_log e k dev w b = Inl Assert_failed \<or>
     (\<exists>w'. vhost_dev_set_log e k dev w b = Inr (w', r) \<and>
        accel_features w' = accel_features w \<and> accel_vring_log w' = accel_vring_log w \<and>
        trace w' = trace w2 @ map (\<lambda>j. SET_VRING_ADDR j (log_enabled dev)) (rev [0..<Suc i]) @
                     [SET_FEATURES (log_features k dev (log_enabled dev))])) \<and>
    ((vhost_dev_set_log e k dev w b = Inl Assert_failed) = (\<not> B))"
  proof (cases A)
    case False
    with unw run have "vhost_dev_set_log e k dev w b = Inl Assert_failed" by simp
    with False r i B show ?thesis by simp
  next
    case True
    with unw have u: "set_log_unwind e ?old w2 ?js = Inr ?w3" by simp
    show ?thesis
    proof (cases "ioctl_errno e (?m + Suc i) = 0")
      case False
      with len3 have "\<exists>w4 t. vhost_dev_set_features e k dev ?w3 ?old = (w4, t) \<and> t < 0"
        by (simp add: set_features_eq)
      with run u have "vhost_dev_set_log e k dev w b = Inl Assert_failed" by auto
      with False r i B show ?thesis by simp
    next
      case z: True
      with len3 have "vhost_dev_set_features e k dev ?w3 ?old = (?w4, 0)"
        by (simp add: set_features_eq)
      with run u have res: "vhost_dev_set_log e k dev w b = Inr (?w4, r)" by simp
      have "accel_features ?w4 = accel_features w" by (simp add: feat)
      moreover have "accel_vring_log ?w4 = accel_vring_log w" using l3 by simp
      moreover have "trace ?w4 = trace w2 @ map (\<lambda>j. SET_VRING_ADDR j ?old) ?js @
                     [SET_FEATURES (log_features k dev ?old)]" by simp
      ultimately have "\<exists>w'. vhost_dev_set_log e k dev w b = Inr (w', r) \<and>
        accel_features w' = accel_features w \<and> accel_vring_log w' = accel_vring_log w \<and>
        trace w' = trace w2 @ map (\<lambda>j. SET_VRING_ADDR j ?old) ?js @
                     [SET_FEATURES (log_features k dev ?old)]"
        using res by blast
      moreover from res have "vhost_dev_set_log e k dev w b \<noteq> Inl Assert_failed" by simp
      ultimately show ?thesis using r i True z B by simp
    qed
  qed
  then show ?thesis unfolding B_def .
qed

theorem set_log_failure_restores_witness:
  "accel_features two_queue_world = log_features lp64_consts two_queue_dev False \<and>
   accel_vring_log two_queue_world = replicate (length (vqs two_queue_dev)) False \<and>
   snd (vhost_dev_set_features (fail_at 2) lp64_consts two_queue_dev two_queue_world True) = 0 \<and>
   snd (set_log_vqs (fail_at 2) True
          (fst (vhost_dev_set_features (fail_at 2) lp64_consts two_queue_dev two_queue_world
             True)) [0, 1]) = Some (1, - 5) \<and>
   set_log_view (vhost_dev_set_log (fail_at 2) lp64_consts two_queue_dev two_queue_world True) =
     Inr (- 5, 1, [False, False],
          [SET_FEATURES 0x4000001, SET_VRING_ADDR 0 True, SET_VRING_ADDR 1 True,
           SET_VRING_ADDR 1 False, SET_VRING_ADDR 0 False, SET_FEATURES 1])"
proof -
  let ?e = "fail_at 2"
  let ?p1 = "vhost_dev_set_features ?e lp64_consts two_queue_dev two_queue_world True"
  have le: "log_enabled two_queue_dev = False" "[0..<length (vqs two_queue_dev)] = [0, 1]"
    by (simp_all add: two_queue_dev_def upt_rec)
  have a: "accel_features two_queue_world = log_features lp64_consts two_queue_dev False"
    "accel_vring_log two_queue_world = replicate (length (vqs two_queue_dev)) False"
    by code_simp+
  have b: "snd ?p1 = 0" by code_simp
  have c: "snd (set_log_vqs ?e True (fst ?p1) [0, 1]) = Some (1, - 5)" by code_simp
  have t: "trace (fst (set_log_vqs ?e True (fst ?p1) [0, 1])) =
      [SET_FEATURES 0x4000001, SET_VRING_ADDR 0 True, SET_VRING_ADDR 1 True]" by code_simp
  define w1 where "w1 = fst ?p1"
  define w2 where "w2 = fst (set_log_vqs ?e True w1 [0, 1])"
  have t2: "trace w2 =
      [SET_FEATURES 0x4000001, SET_VRING_ADDR 0 True, SET_VRING_ADDR 1 True]"
    unfolding w2_def w1_def by (rule t)
  have p1: "?p1 = (w1, 0)" unfolding w1_def using b by (metis prod.collapse)
  have p2: "set_log_vqs ?e True w1 [0, 1] = (w2, Some (1, - 5))"
    unfolding w2_def w1_def using c by (metis prod.collapse)
  have nn: "\<not> (0::int) < 0" by simp
  note T = set_log_failure_restores[of two_queue_world lp64_consts two_queue_dev ?e True
      w1 0 w2 1 "- 5", unfolded le, OF a[unfolded le] p1 nn p2]
  have T': "vhost_dev_set_log ?e lp64_consts two_queue_dev two_queue_world True \<noteq>
      Inl Assert_failed" using T by (simp add: t2 fail_at_def)
  with T obtain w' where
    "vhost_dev_set_log ?e lp64_consts two_queue_dev two_queue_world True = Inr (w', - 5)"
    "accel_features w' = accel_features two_queue_world"
    "accel_vring_log w' = accel_vring_log two_queue_world"
    "trace w' = [SET_FEATURES 0x4000001, SET_VRING_ADDR 0 True, SET_VRING_ADDR 1 True] @
       map (\<lambda>j. SET_VRING_ADDR j False) (rev [0..<Suc 1]) @
       [SET_FEATURES (log_features lp64_consts two_queue_dev False)]"
    by (auto simp: t2)
  then have "set_log_view
      (vhost_dev_set_log ?e lp64_consts two_queue_dev two_queue_world True) =
     Inr (- 5, 1, [False, False],
          [SET_FEATURES 0x4000001, SET_VRING_ADDR 0 True, SET_VRING_ADDR 1 True,
           SET_VRING_ADDR 1 False, SET_VRING_ADDR 0 False, SET_FEATURES 1])"
    by (simp add: set_log_view_def two_queue_world_def log_features_def two_queue_dev_def
        upt_rec)
  with a b c show ?thesis by simp
qed

end
